theory Spec2Isabelle
  imports Main "HOL-Library.Word"
begin

section \<open>Hash generator: data model\<close>

text \<open>
  A shallow embedding of \<^verbatim>\<open>Hash generator/Hash_generator.py\<close>. A byte string is a
  list of 8-bit words. A Python \<^verbatim>\<open>str\<close> that comes from the user (the passphrase, a
  line read by \<^verbatim>\<open>input()\<close>) is the list of its code points; identifiers, messages and
  the derived secret, which are ASCII, are written as \<open>string\<close>, one character per
  code point.
\<close>

type_synonym bytes = "8 word list"
type_synonym pystr = "nat list"

text \<open>
  Exceptions are values. \<open>RuntimeError\<close> and \<open>ValueError\<close> are raised by the source
  itself and carry its message; \<open>KeyError\<close> is a failed dictionary lookup,
  \<open>UnicodeEncodeError\<close> comes from \<^verbatim>\<open>str.encode\<close>, \<open>EOFError\<close> from \<^verbatim>\<open>input()\<close>, and
  \<open>LibraryError\<close> stands for an exception raised inside the argon2 binding.
\<close>

datatype error =
    RuntimeError string
  | ValueError string
  | KeyError string
  | UnicodeEncodeError
  | EOFError
  | LibraryError string

datatype argon2_type = Type_D | Type_I | Type_ID

text \<open>
  What a run does to the world outside the interpreter is recorded in a log, oldest
  entry first: text written to standard output, the line \<^verbatim>\<open>print(f"Error: {e}")\<close>
  writes for an exception \<open>e\<close>, a pause, a text placed on the clipboard. \<open>Call\<close> and
  \<open>Return\<close> are ghost entries: \<open>derive_password\<close> brackets the invocation of the
  hasher it selected with them, so that the number of invocations, their arguments and
  their results can be read off the log.
\<close>

datatype event =
    Stdout string
  | Stdout_error error
  | Sleep nat
  | Clipboard string
  | Call string pystr bytes
  | Return "error + bytes"

text \<open>
  The world: the log, the lines standard input still holds, and the hidden state of the
  argon2 backend (\<open>'b\<close>), which is what lets two invocations with the same arguments
  return different bytes.
\<close>

record 'b world =
  events :: "event list"
  stdin :: "pystr list"
  backend :: 'b

text \<open>
  The libraries the module imports. \<^verbatim>\<open>hashlib.pbkdf2_hmac\<close> is a function of its
  arguments (hash name, password, salt, iterations, dklen). \<open>hash_secret_raw\<close> is
  \<open>None\<close> when \<^verbatim>\<open>from argon2.low_level import hash_secret_raw, Type\<close> failed (lines
  14-18); otherwise it takes secret, salt, time_cost, memory_cost, parallelism,
  hash_len, type and the backend state. \<open>pyperclip\<close> is \<open>None\<close> when the import
  failed (lines 7-11); otherwise it says whether \<^verbatim>\<open>pyperclip.copy\<close> of a text succeeds.
\<close>

record 'b env =
  pbkdf2_hmac :: "string \<Rightarrow> bytes \<Rightarrow> bytes \<Rightarrow> nat \<Rightarrow> nat \<Rightarrow> bytes"
  hash_secret_raw ::
    "(bytes \<Rightarrow> bytes \<Rightarrow> nat \<Rightarrow> nat \<Rightarrow> nat \<Rightarrow> nat \<Rightarrow> argon2_type \<Rightarrow> 'b
        \<Rightarrow> (error + bytes) \<times> 'b) option"
  pyperclip :: "(string \<Rightarrow> bool) option"

definition emit :: "event \<Rightarrow> 'b world \<Rightarrow> 'b world" where
  "emit e w = w\<lparr>events := events w @ [e]\<rparr>"

definition nl :: char where
  "nl = CHR 0x0A"

text \<open>\<^verbatim>\<open>print(s)\<close> writes \<open>s\<close> and a newline.\<close>

definition print :: "string \<Rightarrow> 'b world \<Rightarrow> 'b world" where
  "print s w = emit (Stdout (s @ [nl])) w"

section \<open>Library functions the source calls\<close>

subsection \<open>\<^verbatim>\<open>str.encode('utf-8')\<close>\<close>

text \<open>
  A code point of a Python \<^verbatim>\<open>str\<close> is at most 0x10FFFF. The surrogates
  0xD800..0xDFFF, which \<^verbatim>\<open>argv\<close> and \<^verbatim>\<open>input()\<close> produce for undecodable bytes, cannot
  be encoded: \<^verbatim>\<open>encode\<close> raises.
\<close>

definition utf8_char :: "nat \<Rightarrow> error + bytes" where
  "utf8_char c =
     (if c < 0x80 then Inr [of_nat c]
      else if c < 0x800 then Inr [of_nat (0xC0 + c div 64), of_nat (0x80 + c mod 64)]
      else if 0xD800 \<le> c \<and> c \<le> 0xDFFF then Inl UnicodeEncodeError
      else if c < 0x10000 then
        Inr [of_nat (0xE0 + c div 4096), of_nat (0x80 + c div 64 mod 64),
             of_nat (0x80 + c mod 64)]
      else
        Inr [of_nat (0xF0 + c div 262144), of_nat (0x80 + c div 4096 mod 64),
             of_nat (0x80 + c div 64 mod 64), of_nat (0x80 + c mod 64)])"

fun encode_utf8 :: "pystr \<Rightarrow> error + bytes" where
  "encode_utf8 [] = Inr []"
| "encode_utf8 (c # cs) =
     (case utf8_char c of
        Inl e \<Rightarrow> Inl e
      | Inr b \<Rightarrow> (case encode_utf8 cs of Inl e \<Rightarrow> Inl e | Inr bs \<Rightarrow> Inr (b @ bs)))"

subsection \<open>\<^verbatim>\<open>str.strip()\<close>\<close>

definition isspace :: "nat \<Rightarrow> bool" where
  "isspace c \<longleftrightarrow>
     (0x09 \<le> c \<and> c \<le> 0x0D) \<or> (0x1C \<le> c \<and> c \<le> 0x20) \<or> c = 0x85 \<or> c = 0xA0
     \<or> c = 0x1680 \<or> (0x2000 \<le> c \<and> c \<le> 0x200A) \<or> c = 0x2028 \<or> c = 0x2029
     \<or> c = 0x202F \<or> c = 0x205F \<or> c = 0x3000"

definition strip :: "pystr \<Rightarrow> pystr" where
  "strip s = rev (dropWhile isspace (rev (dropWhile isspace s)))"

subsection \<open>\<^verbatim>\<open>base64.urlsafe_b64encode\<close>\<close>

text \<open>
  \<^verbatim>\<open>urlsafe_b64encode(s)\<close> is \<^verbatim>\<open>b64encode(s)\<close> with \<^verbatim>\<open>+\<close> and \<^verbatim>\<open>/\<close> translated to \<^verbatim>\<open>-\<close>
  and \<^verbatim>\<open>_\<close>. Three bytes give four characters of six bits each; a last group of one
  or two bytes is filled with zero bits and padded with \<^verbatim>\<open>=\<close>. The result is ASCII, so
  the \<^verbatim>\<open>.decode('utf-8')\<close> that follows it in the source yields the same characters: the
  model produces them directly.
\<close>

definition b64_alphabet :: string where
  "b64_alphabet = ''ABCDEFGHIJKLMNOPQRSTUVWXYZabcdefghijklmnopqrstuvwxyz0123456789+/''"

definition b64_char :: "nat \<Rightarrow> char" where
  "b64_char n = b64_alphabet ! (n mod 64)"

fun b64encode :: "bytes \<Rightarrow> string" where
  "b64encode [] = []"
| "b64encode [a] =
     (let n = unat a * 16
      in [b64_char (n div 64), b64_char n, CHR ''='', CHR ''=''])"
| "b64encode [a, b] =
     (let n = (unat a * 256 + unat b) * 4
      in [b64_char (n div 4096), b64_char (n div 64), b64_char n, CHR ''=''])"
| "b64encode (a # b # c # rest) =
     (let n = unat a * 65536 + unat b * 256 + unat c
      in [b64_char (n div 262144), b64_char (n div 4096), b64_char (n div 64), b64_char n]
         @ b64encode rest)"

definition urlsafe_translate :: "char \<Rightarrow> char" where
  "urlsafe_translate c =
     (if c = CHR ''+'' then CHR ''-'' else if c = CHR ''/'' then CHR ''_'' else c)"

definition urlsafe_b64encode :: "bytes \<Rightarrow> string" where
  "urlsafe_b64encode s = map urlsafe_translate (b64encode s)"

subsection \<open>\<^verbatim>\<open>input(prompt)\<close> and the decimal form of \<^verbatim>\<open>len(result)\<close>\<close>

text \<open>\<^verbatim>\<open>input\<close> writes the prompt and takes the next line, or raises at end of file.\<close>

definition input :: "string \<Rightarrow> 'b world \<Rightarrow> (error + pystr) \<times> 'b world" where
  "input prompt w =
     (let w1 = emit (Stdout prompt) w
      in case stdin w1 of
           [] \<Rightarrow> (Inl EOFError, w1)
         | l # ls \<Rightarrow> (Inr l, w1\<lparr>stdin := ls\<rparr>))"

definition digit_char :: "nat \<Rightarrow> char" where
  "digit_char d = ''0123456789'' ! (d mod 10)"

function str_nat :: "nat \<Rightarrow> string" where
  "str_nat n = (if n < 10 then [digit_char n] else str_nat (n div 10) @ [digit_char n])"
  by pat_completeness auto
termination
  by (relation "measure id") auto

declare str_nat.simps [simp del]

section \<open>The module\<close>

subsection \<open>Constants and tables (lines 20-32, 58-69)\<close>

definition SALT :: bytes where
  "SALT = map of_char ''Something_[]_ASDF''"

definition SIZE_MAP :: "string \<rightharpoonup> nat option" where
  "SIZE_MAP = map_of
     [(''short'', Some 16), (''small'', Some 32), (''medium'', Some 64), (''big'', Some 128),
      (''long'', Some 236), (''huge'', Some 472), (''full'', None)]"

definition HASH_SCHEMES :: "string \<rightharpoonup> string" where
  "HASH_SCHEMES = map_of
     [(''interactive'', ''PBKDF2-HMAC-SHA256''), (''deep'', ''Argon2id'')]"

subsection \<open>The hashers (lines 34-56)\<close>

definition pbkdf2_hasher ::
  "'b env \<Rightarrow> pystr \<Rightarrow> bytes \<Rightarrow> 'b world \<Rightarrow> (error + bytes) \<times> 'b world" where
  "pbkdf2_hasher env password salt w =
     (case encode_utf8 password of
        Inl e \<Rightarrow> (Inl e, w)
      | Inr pw \<Rightarrow> (Inr (pbkdf2_hmac env ''sha256'' pw salt 500000 512), w))"

definition argon2_missing :: string where
  "argon2_missing =
     ''argon2-cffi is required for the '' @ [CHR 0x27] @ ''deep'' @ [CHR 0x27]
     @ '' scheme, run:'' @ [nl] @ ''  pip install argon2-cffi''"

definition argon2_hasher ::
  "'b env \<Rightarrow> pystr \<Rightarrow> bytes \<Rightarrow> 'b world \<Rightarrow> (error + bytes) \<times> 'b world" where
  "argon2_hasher env password salt w =
     (case hash_secret_raw env of
        None \<Rightarrow> (Inl (RuntimeError argon2_missing), w)
      | Some raw_hash \<Rightarrow>
          (case encode_utf8 password of
             Inl e \<Rightarrow> (Inl e, w)
           | Inr pw \<Rightarrow>
               (case raw_hash pw salt 10 102400 4 512 Type_ID (backend w) of
                  (r, b') \<Rightarrow> (r, w\<lparr>backend := b'\<rparr>))))"

type_synonym 'b hasher =
  "'b env \<Rightarrow> pystr \<Rightarrow> bytes \<Rightarrow> 'b world \<Rightarrow> (error + bytes) \<times> 'b world"

definition dispatch :: "string \<rightharpoonup> 'b hasher" where
  "dispatch = map_of [(''interactive'', pbkdf2_hasher), (''deep'', argon2_hasher)]"

subsection \<open>The derivation (lines 71-101)\<close>

definition derive_password ::
  "'b env \<Rightarrow> pystr \<Rightarrow> string \<Rightarrow> bytes \<Rightarrow> 'b world \<Rightarrow> (error + string) \<times> 'b world" where
  "derive_password env password scheme salt w =
     (case dispatch scheme of
        None \<Rightarrow> (Inl (KeyError scheme), w)
      | Some hasher \<Rightarrow>
          (case hasher env password salt (emit (Call scheme password salt) w) of
             (r, w') \<Rightarrow>
               (case r of
                  Inl e \<Rightarrow> (Inl e, emit (Return r) w')
                | Inr raw \<Rightarrow> (Inr (urlsafe_b64encode (salt @ raw)), emit (Return r) w'))))"

text \<open>
  The loop \<^verbatim>\<open>for _ in range(3)\<close> of \<open>generate_reliable_password\<close>, with the number of
  rounds left: a round derives, appends the result to \<open>outputs\<close> and sleeps a second.
  An exception leaves the loop at once.
\<close>

fun derive_rounds ::
  "nat \<Rightarrow> 'b env \<Rightarrow> pystr \<Rightarrow> string \<Rightarrow> string list \<Rightarrow> 'b world
     \<Rightarrow> (error + string list) \<times> 'b world" where
  "derive_rounds 0 env password scheme outputs w = (Inr outputs, w)"
| "derive_rounds (Suc n) env password scheme outputs w =
     (case derive_password env password scheme SALT w of
        (Inl e, w') \<Rightarrow> (Inl e, w')
      | (Inr out, w') \<Rightarrow>
          derive_rounds n env password scheme (outputs @ [out]) (emit (Sleep 1) w'))"

definition banner :: string where
  "banner = [nl] @ '' Generating and validating, please wait.'' @ [nl]"

definition inconsistent :: string where
  "inconsistent = ''Inconsistent outputs: derivation not reliable. check coding''"

definition generate_reliable_password ::
  "'b env \<Rightarrow> pystr \<Rightarrow> string \<Rightarrow> 'b world \<Rightarrow> (error + string) \<times> 'b world" where
  "generate_reliable_password env password scheme w =
     (case derive_rounds 3 env password scheme [] (print banner w) of
        (Inl e, w') \<Rightarrow> (Inl e, w')
      | (Inr outputs, w') \<Rightarrow>
          if card (set outputs) = 1 then (Inr (outputs ! 0), w')
          else (Inl (ValueError inconsistent), w'))"

definition generate_password_with_size ::
  "'b env \<Rightarrow> pystr \<Rightarrow> string \<Rightarrow> string \<Rightarrow> 'b world \<Rightarrow> (error + string) \<times> 'b world" where
  "generate_password_with_size env password scheme sz w =
     (case generate_reliable_password env password scheme w of
        (Inl e, w') \<Rightarrow> (Inl e, w')
      | (Inr full_pw, w') \<Rightarrow>
          (case SIZE_MAP sz of
             None \<Rightarrow> (Inl (KeyError sz), w')
           | Some len \<Rightarrow>
               (Inr (case len of None \<Rightarrow> full_pw | Some n \<Rightarrow> take n full_pw), w')))"

subsection \<open>The caller: parts of \<open>main\<close> (lines 138-142, 104-112, 172-178)\<close>

definition prompt_first :: string where
  "prompt_first = ''Enter your base password/passphrase: ''"

definition prompt_again :: string where
  "prompt_again = ''Enter your base password/passphrase (cannot be empty): ''"

text \<open>
  \<^verbatim>\<open>while not args.input.strip(): args.input = input(...)\<close>, with the current value of
  \<^verbatim>\<open>args.input\<close>. Each round takes a line from standard input, so the loop ends.
\<close>

function ask_again :: "pystr \<Rightarrow> 'b world \<Rightarrow> (error + pystr) \<times> 'b world" where
  "ask_again cur w =
     (if strip cur = [] then
        (case input prompt_again w of
           (Inl e, w') \<Rightarrow> (Inl e, w')
         | (Inr l, w') \<Rightarrow> ask_again l w')
      else (Inr cur, w))"
  by pat_completeness auto
termination
  by (relation "measure (\<lambda>(cur, w). length (stdin w))")
     (auto simp: input_def emit_def Let_def split: list.splits)

declare ask_again.simps [simp del]

text \<open>
  Lines 138-142: \<^verbatim>\<open>args.input\<close> is \<open>None\<close> when \<^verbatim>\<open>-i\<close> was not given;
  \<^verbatim>\<open>not args.input\<close> holds for \<open>None\<close> and for the empty string.
\<close>

definition read_passphrase :: "pystr option \<Rightarrow> 'b world \<Rightarrow> (error + pystr) \<times> 'b world" where
  "read_passphrase given w =
     (if given = None \<or> given = Some [] then
        (case input prompt_first w of
           (Inl e, w') \<Rightarrow> (Inl e, w')
         | (Inr l, w') \<Rightarrow> ask_again l w')
      else ask_again (the given) w)"

text \<open>
  \<open>copy_to_clipboard\<close>: nothing without pyperclip; an exception of
  \<^verbatim>\<open>pyperclip.copy\<close> is swallowed.
\<close>

definition copy_to_clipboard :: "'b env \<Rightarrow> string \<Rightarrow> 'b world \<Rightarrow> 'b world" where
  "copy_to_clipboard env text w =
     (case pyperclip env of
        None \<Rightarrow> w
      | Some copy \<Rightarrow> if copy text then emit (Clipboard text) w else w)"

definition derived_message :: "string \<Rightarrow> string \<Rightarrow> string \<Rightarrow> string" where
  "derived_message encryption sz result =
     [nl] @ ''Derived hash ['' @ encryption @ ''] was copied to clipboard ('' @ sz @ '', ''
     @ str_nat (length result) @ '' chars):'' @ [nl] @ result @ [nl]"

text \<open>
  Lines 172-178, the \<^verbatim>\<open>try\<close> of \<open>main\<close>. The result is \<open>Inr ()\<close> when the block
  completes and \<open>Inl e\<close> when an exception \<open>e\<close> leaves it; every exception of the model
  is an \<^verbatim>\<open>Exception\<close>, which the handler catches.
\<close>

definition main_derive ::
  "'b env \<Rightarrow> pystr \<Rightarrow> string \<Rightarrow> string \<Rightarrow> 'b world \<Rightarrow> (error + unit) \<times> 'b world" where
  "main_derive env inp encryption sz w =
     (case generate_password_with_size env inp encryption sz w of
        (Inr result, w') \<Rightarrow>
          (Inr (), copy_to_clipboard env result (print (derived_message encryption sz result) w'))
      | (Inl e, w') \<Rightarrow> (Inr (), emit (Stdout_error e) w'))"

section \<open>Reading the log\<close>

text \<open>The hasher invocations of a log, and the results they returned, in order.\<close>

fun calls :: "event list \<Rightarrow> (string \<times> pystr \<times> bytes) list" where
  "calls [] = []"
| "calls (Call scheme password salt # es) = (scheme, password, salt) # calls es"
| "calls (_ # es) = calls es"

fun returns :: "event list \<Rightarrow> (error + bytes) list" where
  "returns [] = []"
| "returns (Return r # es) = r # returns es"
| "returns (_ # es) = returns es"

text \<open>What can be observed from outside: everything but the ghost entries.\<close>

fun observable :: "event \<Rightarrow> bool" where
  "observable (Call _ _ _) = False"
| "observable (Return _) = False"
| "observable _ = True"

definition printable :: "char \<Rightarrow> bool" where
  "printable c \<longleftrightarrow> 0x20 \<le> (of_char c :: nat) \<and> (of_char c :: nat) \<le> 0x7E"

definition urlsafe_alphabet :: string where
  "urlsafe_alphabet = ''ABCDEFGHIJKLMNOPQRSTUVWXYZabcdefghijklmnopqrstuvwxyz0123456789-_''"

text \<open>How \<open>generate_password_with_size\<close> applies a \<open>SIZE_MAP\<close> value to the full string.\<close>

definition apply_size :: "nat option \<Rightarrow> string \<Rightarrow> string" where
  "apply_size len full_pw = (case len of None \<Rightarrow> full_pw | Some n \<Rightarrow> take n full_pw)"

text \<open>
  The loop with \<open>n\<close> rounds to go: either every round returns, and the log holds \<open>n\<close>
  invocations with their results and \<open>n\<close> pauses, or a round raises, and the log ends
  with that invocation.
\<close>

definition rounds_ok ::
  "nat \<Rightarrow> string \<Rightarrow> pystr \<Rightarrow> string list \<Rightarrow> error + string list \<Rightarrow> event list \<Rightarrow> bool" where
  "rounds_ok n scheme p outputs res new \<longleftrightarrow>
     (\<exists>raws. res = Inr (outputs @ map (\<lambda>raw. urlsafe_b64encode (SALT @ raw)) raws)
        \<and> length raws = n \<and> returns new = map Inr raws
        \<and> calls new = replicate n (scheme, p, SALT)
        \<and> filter observable new = replicate n (Sleep 1))"

definition rounds_raise ::
  "nat \<Rightarrow> string \<Rightarrow> pystr \<Rightarrow> error + string list \<Rightarrow> event list \<Rightarrow> bool" where
  "rounds_raise n scheme p res new \<longleftrightarrow>
     (\<exists>raws e. res = Inl e \<and> length raws < n \<and> returns new = map Inr raws @ [Inl e]
        \<and> calls new = replicate (Suc (length raws)) (scheme, p, SALT)
        \<and> filter observable new = replicate (length raws) (Sleep 1))"

section \<open>Environments for the examples\<close>

text \<open>
  Stand-ins for the libraries, used where a theorem is run on a concrete input. In
  \<open>env_steady\<close> both libraries return \<open>dklen\<close> (\<open>hash_len\<close>) zero bytes, whatever the
  passphrase; in \<open>env_flaky\<close> the argon2 backend answers each invocation differently;
  in \<open>env_bare\<close> argon2-cffi is not installed.
\<close>

definition env_steady :: "nat env" where
  "env_steady =
     \<lparr>pbkdf2_hmac = (\<lambda>name pw salt iterations dklen. replicate dklen 0),
      hash_secret_raw = Some (\<lambda>pw salt t m par hash_len ty b. (Inr (replicate hash_len 0), b)),
      pyperclip = None\<rparr>"

definition env_flaky :: "nat env" where
  "env_flaky =
     \<lparr>pbkdf2_hmac = (\<lambda>name pw salt iterations dklen. replicate dklen 0),
      hash_secret_raw =
        Some (\<lambda>pw salt t m par hash_len ty b. (Inr (replicate hash_len (of_nat b)), Suc b)),
      pyperclip = None\<rparr>"

definition env_bare :: "nat env" where
  "env_bare =
     \<lparr>pbkdf2_hmac = (\<lambda>name pw salt iterations dklen. replicate dklen 0),
      hash_secret_raw = None,
      pyperclip = None\<rparr>"

definition world0 :: "nat world" where
  "world0 = \<lparr>events = [], stdin = [], backend = 0\<rparr>"

section \<open>Properties of the library functions\<close>

lemma length_b64encode: "length (b64encode bs) = 4 * ((length bs + 2) div 3)"
proof (induction bs rule: b64encode.induct)
  case (4 a b c rest)
  have "(length (a # b # c # rest) + 2) div 3 = Suc ((length rest + 2) div 3)"
    by simp
  with 4 show ?case by (simp add: Let_def)
qed (simp_all add: Let_def)

lemma length_urlsafe_b64encode:
  "length (urlsafe_b64encode bs) = 4 * ((length bs + 2) div 3)"
  by (simp add: urlsafe_b64encode_def length_b64encode)

lemma b64_char_in: "b64_char n \<in> set b64_alphabet"
proof -
  have "length b64_alphabet = 64" by (simp add: b64_alphabet_def)
  then show ?thesis unfolding b64_char_def by (intro nth_mem) simp
qed

lemma set_b64encode: "set (b64encode bs) \<subseteq> set b64_alphabet \<union> {CHR ''=''}"
  by (induction bs rule: b64encode.induct) (auto simp: Let_def b64_char_in)

lemma translate_alphabet:
  "c \<in> set b64_alphabet \<Longrightarrow> urlsafe_translate c \<in> set urlsafe_alphabet"
  by (auto simp: b64_alphabet_def urlsafe_alphabet_def urlsafe_translate_def)

lemma set_urlsafe_b64encode:
  "set (urlsafe_b64encode bs) \<subseteq> set urlsafe_alphabet \<union> {CHR ''=''}"
proof
  fix c assume "c \<in> set (urlsafe_b64encode bs)"
  then obtain d where d: "d \<in> set (b64encode bs)" "c = urlsafe_translate d"
    by (auto simp: urlsafe_b64encode_def)
  with set_b64encode [of bs] have "d \<in> set b64_alphabet \<or> d = CHR ''=''" by auto
  then show "c \<in> set urlsafe_alphabet \<union> {CHR ''=''}"
    using d(2) translate_alphabet [of d] by (auto simp: urlsafe_translate_def)
qed

lemma printable_alphabet:
  "c \<in> set urlsafe_alphabet \<union> {CHR ''=''} \<Longrightarrow> printable c"
  by (auto simp: urlsafe_alphabet_def printable_def)

subsection \<open>The encoding is injective\<close>

text \<open>
  Different byte strings have different encodings: a character of the alphabet stands
  for one six-bit value, four of them for one group of three bytes, and the padding
  tells a last group of one or two bytes from a full one. So equal candidates mean equal
  raw results.
\<close>

lemma b64_alphabet_distinct: "distinct b64_alphabet"
  by (simp add: b64_alphabet_def)

lemma b64_char_inj:
  assumes "b64_char m = b64_char n"
  shows "m mod 64 = n mod 64"
proof -
  have "length b64_alphabet = 64" by (simp add: b64_alphabet_def)
  then have "m mod 64 < length b64_alphabet" "n mod 64 < length b64_alphabet" by simp_all
  with assms b64_alphabet_distinct show ?thesis
    unfolding b64_char_def by (simp add: nth_eq_iff_index_eq)
qed

lemma b64_char_not_pad: "b64_char n \<noteq> CHR ''=''"
proof -
  have "CHR ''='' \<notin> set b64_alphabet" by (simp add: b64_alphabet_def)
  with b64_char_in [of n] show ?thesis by auto
qed


lemma div64_step:
  fixes a b :: nat
  assumes "a div 64 = b div 64" "a mod 64 = b mod 64"
  shows "a = b"
  by (metis assms div_mult_mod_eq)

lemma sextets_inj:
  fixes m n :: nat
  assumes "m < 16777216" "n < 16777216"
    and "b64_char (m div 262144) = b64_char (n div 262144)"
    and "b64_char (m div 4096) = b64_char (n div 4096)"
    and "b64_char (m div 64) = b64_char (n div 64)"
    and "b64_char m = b64_char n"
  shows "m = n"
proof -
  have d: "k div 262144 = k div 64 div 64 div 64" "k div 4096 = k div 64 div 64" for k :: nat
    by (simp_all add: div_mult2_eq)
  have "m div 262144 < 64" "n div 262144 < 64"
    using assms(1,2) by simp_all
  with b64_char_inj [OF assms(3)] have q3: "m div 64 div 64 div 64 = n div 64 div 64 div 64"
    by (simp add: d)
  from b64_char_inj [OF assms(4)] have "m div 64 div 64 mod 64 = n div 64 div 64 mod 64"
    by (simp add: d)
  from div64_step [OF q3 this] have q2: "m div 64 div 64 = n div 64 div 64" .
  from div64_step [OF q2 b64_char_inj [OF assms(5)]] have q1: "m div 64 = n div 64" .
  from div64_step [OF q1 b64_char_inj [OF assms(6)]] show ?thesis .
qed

lemma base256:
  fixes h l h' l' :: nat
  assumes "h * 256 + l = h' * 256 + l'" "l < 256" "l' < 256"
  shows "h = h' \<and> l = l'"
proof -
  have "(h * 256 + l) div 256 = h" "(h' * 256 + l') div 256 = h'"
    "(h * 256 + l) mod 256 = l" "(h' * 256 + l') mod 256 = l'"
    using assms(2,3) by simp_all
  with assms(1) show ?thesis by metis
qed

lemma unat_byte: "unat (x :: 8 word) < 256"
  using unsigned_less [of x, where ?'a = nat] by simp

lemma octets_inj:
  fixes a b c a' b' c' :: "8 word"
  assumes "unat a * 65536 + unat b * 256 + unat c = unat a' * 65536 + unat b' * 256 + unat c'"
  shows "a = a' \<and> b = b' \<and> c = c'"
proof -
  from assms
  have "(unat a * 256 + unat b) * 256 + unat c = (unat a' * 256 + unat b') * 256 + unat c'"
    by simp
  from base256 [OF this unat_byte unat_byte]
  have ab: "unat a * 256 + unat b = unat a' * 256 + unat b'" and c: "unat c = unat c'"
    by simp_all
  from base256 [OF ab unat_byte unat_byte] c show ?thesis
    by (simp add: word_unat_eq_iff)
qed


lemma sextets2_inj:
  fixes m n :: nat
  assumes "m < 4096" "n < 4096"
    and "b64_char (m div 64) = b64_char (n div 64)" and "b64_char m = b64_char n"
  shows "m = n"
proof -
  have "m div 64 < 64" "n div 64 < 64" using assms(1,2) by simp_all
  with b64_char_inj [OF assms(3)] have "m div 64 = n div 64" by simp
  from div64_step [OF this b64_char_inj [OF assms(4)]] show ?thesis .
qed

lemma sextets3_inj:
  fixes m n :: nat
  assumes "m < 262144" "n < 262144"
    and "b64_char (m div 4096) = b64_char (n div 4096)"
    and "b64_char (m div 64) = b64_char (n div 64)" and "b64_char m = b64_char n"
  shows "m = n"
proof -
  have d: "k div 4096 = k div 64 div 64" for k :: nat
    by (simp add: div_mult2_eq)
  have "m div 4096 < 64" "n div 4096 < 64" using assms(1,2) by simp_all
  with b64_char_inj [OF assms(3)] have "m div 64 div 64 = n div 64 div 64" by (simp add: d)
  from div64_step [OF this b64_char_inj [OF assms(4)]] have "m div 64 = n div 64" .
  from div64_step [OF this b64_char_inj [OF assms(5)]] show ?thesis .
qed

lemma group1_bound: "unat (a :: 8 word) * 16 < 4096"
  using unat_byte [of a] by linarith

lemma group2_bound: "(unat (a :: 8 word) * 256 + unat (b :: 8 word)) * 4 < 262144"
proof -
  have "(unat a * 256 + unat b) * 4 = unat a * 1024 + unat b * 4" by simp
  with unat_byte [of a] unat_byte [of b] show ?thesis by linarith
qed

lemma group3_bound:
  "unat (a :: 8 word) * 65536 + unat (b :: 8 word) * 256 + unat (c :: 8 word) < 16777216"
  using unat_byte [of a] unat_byte [of b] unat_byte [of c] by linarith

lemma b64encode_1:
  "m = unat a * 16 \<Longrightarrow> b64encode [a] = [b64_char (m div 64), b64_char m, CHR ''='', CHR ''='']"
  by (simp add: Let_def)

lemma b64encode_2:
  "m = (unat a * 256 + unat b) * 4 \<Longrightarrow>
     b64encode [a, b] = [b64_char (m div 4096), b64_char (m div 64), b64_char m, CHR ''='']"
  by (simp add: Let_def)

lemma b64encode_3:
  "m = unat a * 65536 + unat b * 256 + unat c \<Longrightarrow>
     b64encode (a # b # c # rest)
       = b64_char (m div 262144) # b64_char (m div 4096) # b64_char (m div 64) # b64_char m
           # b64encode rest"
  by (simp add: Let_def)

lemma b64encode_inj: "b64encode xs = b64encode ys \<Longrightarrow> xs = ys"
proof (induction xs arbitrary: ys rule: b64encode.induct)
  case 1
  then have "length (b64encode ys) = 0" by simp
  then show ?case unfolding length_b64encode by (cases ys) simp_all
next
  case (2 a)
  define m where "m = unat a * 16"
  note lhs = b64encode_1 [OF m_def]
  show ?case
  proof (cases ys rule: b64encode.cases)
    case 1
    with "2.prems" lhs show ?thesis by simp
  next
    case (2 a')
    define n where "n = unat a' * 16"
    have bnd: "m < 4096" "n < 4096"
      unfolding m_def n_def by (rule group1_bound)+
    from "2.prems" have "b64_char (m div 64) = b64_char (n div 64)" "b64_char m = b64_char n"
      unfolding 2 lhs b64encode_1 [OF n_def] by simp_all
    with bnd have "m = n" by (rule sextets2_inj)
    with 2 show ?thesis by (simp add: m_def n_def word_unat_eq_iff)
  next
    case (3 a' b')
    from "2.prems" show ?thesis
      unfolding 3 lhs b64encode_2 [OF refl] by (simp add: b64_char_not_pad b64_char_not_pad [THEN not_sym])
  next
    case (4 a' b' c' rest')
    from "2.prems" show ?thesis
      unfolding 4 lhs b64encode_3 [OF refl] by (simp add: b64_char_not_pad b64_char_not_pad [THEN not_sym])
  qed
next
  case (3 a b)
  define m where "m = (unat a * 256 + unat b) * 4"
  note lhs = b64encode_2 [OF m_def]
  show ?case
  proof (cases ys rule: b64encode.cases)
    case 1
    with "3.prems" lhs show ?thesis by simp
  next
    case (2 a')
    from "3.prems" show ?thesis
      unfolding 2 lhs b64encode_1 [OF refl] by (simp add: b64_char_not_pad b64_char_not_pad [THEN not_sym])
  next
    case (3 a' b')
    define n where "n = (unat a' * 256 + unat b') * 4"
    have bnd: "m < 262144" "n < 262144"
      unfolding m_def n_def by (rule group2_bound)+
    from "3.prems" have "b64_char (m div 4096) = b64_char (n div 4096)"
      "b64_char (m div 64) = b64_char (n div 64)" "b64_char m = b64_char n"
      unfolding 3 lhs b64encode_2 [OF n_def] by simp_all
    with bnd have "m = n" by (rule sextets3_inj)
    then have "unat a * 256 + unat b = unat a' * 256 + unat b'" by (simp add: m_def n_def)
    from base256 [OF this unat_byte unat_byte] 3 show ?thesis
      by (simp add: word_unat_eq_iff)
  next
    case (4 a' b' c' rest')
    from "3.prems" show ?thesis
      unfolding 4 lhs b64encode_3 [OF refl] by (simp add: b64_char_not_pad b64_char_not_pad [THEN not_sym])
  qed
next
  case (4 a b c rest)
  define m where "m = unat a * 65536 + unat b * 256 + unat c"
  note lhs = b64encode_3 [OF m_def]
  show ?case
  proof (cases ys rule: b64encode.cases)
    case 1
    with "4.prems" lhs show ?thesis by simp
  next
    case (2 a')
    from "4.prems" show ?thesis
      unfolding 2 lhs b64encode_1 [OF refl] by (simp add: b64_char_not_pad b64_char_not_pad [THEN not_sym])
  next
    case (3 a' b')
    from "4.prems" show ?thesis
      unfolding 3 lhs b64encode_2 [OF refl] by (simp add: b64_char_not_pad b64_char_not_pad [THEN not_sym])
  next
    case (4 a' b' c' rest')
    define n where "n = unat a' * 65536 + unat b' * 256 + unat c'"
    have bnd: "m < 16777216" "n < 16777216"
      unfolding m_def n_def by (rule group3_bound)+
    from "4.prems" have e: "b64_char (m div 262144) = b64_char (n div 262144)"
      "b64_char (m div 4096) = b64_char (n div 4096)"
      "b64_char (m div 64) = b64_char (n div 64)" "b64_char m = b64_char n"
      and r: "b64encode rest = b64encode rest'"
      unfolding 4 lhs b64encode_3 [OF n_def] by simp_all
    from bnd e have "m = n" by (rule sextets_inj)
    from octets_inj [OF this [unfolded m_def n_def]] have abc: "a = a'" "b = b'" "c = c'"
      by simp_all
    from "4.IH" [OF refl r] abc 4 show ?thesis by simp
  qed
qed

lemma alphabet_no_dash:
  assumes "c \<in> set b64_alphabet \<union> {CHR ''=''}"
  shows "c \<noteq> CHR ''-'' \<and> c \<noteq> CHR ''_''"
proof -
  have "CHR ''-'' \<notin> set b64_alphabet \<union> {CHR ''=''}" "CHR ''_'' \<notin> set b64_alphabet \<union> {CHR ''=''}"
    by (simp_all add: b64_alphabet_def)
  with assms show ?thesis by blast
qed

lemma urlsafe_translate_inj:
  assumes "c \<in> set b64_alphabet \<union> {CHR ''=''}" "d \<in> set b64_alphabet \<union> {CHR ''=''}"
    and "urlsafe_translate c = urlsafe_translate d"
  shows "c = d"
proof -
  from alphabet_no_dash [OF assms(1)] have c: "c \<noteq> CHR ''-''" "c \<noteq> CHR ''_''" by simp_all
  from alphabet_no_dash [OF assms(2)] have d: "d \<noteq> CHR ''-''" "d \<noteq> CHR ''_''" by simp_all
  show ?thesis
  proof (cases "c = CHR ''+''")
    case True
    with assms(3) d show ?thesis by (simp add: urlsafe_translate_def split: if_splits)
  next
    case False
    note nc = this
    show ?thesis
    proof (cases "c = CHR ''/''")
      case True
      with assms(3) d show ?thesis by (simp add: urlsafe_translate_def split: if_splits)
    next
      case False
      with nc assms(3) c show ?thesis by (simp add: urlsafe_translate_def split: if_splits)
    qed
  qed
qed


lemma urlsafe_b64encode_inj:
  assumes "urlsafe_b64encode xs = urlsafe_b64encode ys"
  shows "xs = ys"
proof -
  have "inj_on urlsafe_translate (set (b64encode xs) \<union> set (b64encode ys))"
  proof (rule inj_onI)
    fix c d
    assume "c \<in> set (b64encode xs) \<union> set (b64encode ys)"
      and "d \<in> set (b64encode xs) \<union> set (b64encode ys)"
      and e: "urlsafe_translate c = urlsafe_translate d"
    with set_b64encode [of xs] set_b64encode [of ys]
    have "c \<in> set b64_alphabet \<union> {CHR ''=''}" "d \<in> set b64_alphabet \<union> {CHR ''=''}"
      by blast+
    then show "c = d" using e by (rule urlsafe_translate_inj)
  qed
  then have "map urlsafe_translate (b64encode xs) = map urlsafe_translate (b64encode ys)
               \<longleftrightarrow> b64encode xs = b64encode ys"
    by (rule inj_on_map_eq_map)
  with assms have "b64encode xs = b64encode ys"
    by (simp only: urlsafe_b64encode_def)
  then show ?thesis by (rule b64encode_inj)
qed

lemma candidate_inj:
  "urlsafe_b64encode (SALT @ raw) = urlsafe_b64encode (SALT @ raw') \<longleftrightarrow> raw = raw'"
  using urlsafe_b64encode_inj [of "SALT @ raw" "SALT @ raw'"] by auto

text \<open>
  The first twelve bytes of the salt fill four groups of three, so the first sixteen
  characters of the encoding of \<open>SALT @ raw\<close> do not depend on \<open>raw\<close>.
\<close>

lemma salt_prefix:
  "take 16 (urlsafe_b64encode (SALT @ raw)) = ''U29tZXRoaW5nX1td''"
  by (simp add: SALT_def urlsafe_b64encode_def b64_char_def b64_alphabet_def
      urlsafe_translate_def)

section \<open>What a derivation writes to the log\<close>

lemma calls_append: "calls (xs @ ys) = calls xs @ calls ys"
  by (induction xs rule: calls.induct) simp_all

lemma returns_append: "returns (xs @ ys) = returns xs @ returns ys"
  by (induction xs rule: returns.induct) simp_all

lemma card_set3: "card (set [a, b, c]) = 1 \<longleftrightarrow> a = b \<and> b = c"
  by (auto simp: card_insert_if)

lemma dispatch_cases:
  assumes "dispatch scheme = Some (hasher :: 'b hasher)"
  shows "(scheme = ''interactive'' \<and> hasher = pbkdf2_hasher)
       \<or> (scheme = ''deep'' \<and> hasher = argon2_hasher)"
  using assms by (simp add: dispatch_def split: if_splits)

lemma dispatch_None:
  "(dispatch scheme :: 'b hasher option) = None
     \<longleftrightarrow> scheme \<noteq> ''interactive'' \<and> scheme \<noteq> ''deep''"
  by (simp add: dispatch_def)

lemma pbkdf2_hasher_frame: "pbkdf2_hasher env p salt w = (r, w') \<Longrightarrow> w' = w"
  by (auto simp: pbkdf2_hasher_def split: sum.splits)

lemma argon2_hasher_frame:
  "argon2_hasher env p salt w = (r, w') \<Longrightarrow> events w' = events w \<and> stdin w' = stdin w"
  by (auto simp: argon2_hasher_def split: sum.splits option.splits prod.splits)

lemma hasher_frame:
  assumes "dispatch scheme = Some (hasher :: 'b hasher)" "hasher env p salt w = (r, w')"
  shows "events w' = events w \<and> stdin w' = stdin w"
  using dispatch_cases [OF assms(1)] assms(2)
  by (auto dest: pbkdf2_hasher_frame argon2_hasher_frame)

lemma derive_password_unknown:
  "scheme \<noteq> ''interactive'' \<Longrightarrow> scheme \<noteq> ''deep'' \<Longrightarrow>
     derive_password env p scheme salt w = (Inl (KeyError scheme), w)"
  by (simp add: derive_password_def dispatch_def)

text \<open>One derivation: a \<open>Call\<close>, the hasher's \<open>Return\<close>, and the encoding of the result.\<close>

lemma derive_password_log:
  assumes "dispatch scheme = Some (hasher :: 'b hasher)"
    and "derive_password (env :: 'b env) p scheme salt w = (r, w')"
  shows "\<exists>ret. events w' = events w @ [Call scheme p salt, Return ret] \<and> stdin w' = stdin w
           \<and> r = map_sum id (\<lambda>raw. urlsafe_b64encode (salt @ raw)) ret"
proof -
  obtain ret w1 where h: "hasher env p salt (emit (Call scheme p salt) w) = (ret, w1)"
    by (cases "hasher env p salt (emit (Call scheme p salt) w)")
  from hasher_frame [OF assms(1) h]
  have f: "events w1 = events w @ [Call scheme p salt]" "stdin w1 = stdin w"
    by (simp_all add: emit_def)
  from assms h have "w' = emit (Return ret) w1"
    "r = map_sum id (\<lambda>raw. urlsafe_b64encode (salt @ raw)) ret"
    by (auto simp: derive_password_def split: sum.splits)
  with f show ?thesis by (auto simp: emit_def)
qed

lemma schemes_dispatch:
  "scheme \<in> dom HASH_SCHEMES \<Longrightarrow> \<exists>hasher :: 'b hasher. dispatch scheme = Some hasher"
  by (auto simp: HASH_SCHEMES_def dispatch_def split: if_splits)

lemma rounds_ok_step:
  assumes "rounds_ok n scheme p (outputs @ [urlsafe_b64encode (SALT @ raw)]) res new"
  shows "rounds_ok (Suc n) scheme p outputs res
           ([Call scheme p SALT, Return (Inr raw), Sleep 1] @ new)"
proof -
  from assms obtain raws where
    a: "res = Inr ((outputs @ [urlsafe_b64encode (SALT @ raw)])
                     @ map (\<lambda>raw. urlsafe_b64encode (SALT @ raw)) raws)"
      "length raws = n" "returns new = map Inr raws"
      "calls new = replicate n (scheme, p, SALT)"
      "filter observable new = replicate n (Sleep 1)"
    unfolding rounds_ok_def by blast
  show ?thesis
    unfolding rounds_ok_def using a by (intro exI [of _ "raw # raws"]) simp
qed

lemma rounds_raise_step:
  assumes "rounds_raise n scheme p res new"
  shows "rounds_raise (Suc n) scheme p res
           ([Call scheme p SALT, Return (Inr raw), Sleep 1] @ new)"
proof -
  from assms obtain raws e where
    a: "res = Inl e" "length raws < n" "returns new = map Inr raws @ [Inl e]"
      "calls new = replicate (Suc (length raws)) (scheme, p, SALT)"
      "filter observable new = replicate (length raws) (Sleep 1)"
    unfolding rounds_raise_def by blast
  show ?thesis
    unfolding rounds_raise_def using a by (intro exI [of _ "raw # raws"] exI [of _ e]) simp
qed

lemma derive_rounds_log:
  assumes "dispatch scheme = Some (hasher :: 'b hasher)"
    and "derive_rounds n (env :: 'b env) p scheme outputs w = (res, w')"
  shows "\<exists>new. events w' = events w @ new \<and> stdin w' = stdin w
           \<and> (rounds_ok n scheme p outputs res new \<or> rounds_raise n scheme p res new)"
  using assms(2)
proof (induction n arbitrary: outputs w)
  case 0
  then show ?case by (simp add: rounds_ok_def)
next
  case (Suc n)
  obtain r1 w1 where d: "derive_password env p scheme SALT w = (r1, w1)"
    by (cases "derive_password env p scheme SALT w")
  from derive_password_log [OF assms(1) d] obtain ret where
    ev: "events w1 = events w @ [Call scheme p SALT, Return ret]" and
    st: "stdin w1 = stdin w" and
    r1: "r1 = map_sum id (\<lambda>raw. urlsafe_b64encode (SALT @ raw)) ret"
    by blast
  show ?case
  proof (cases ret)
    case (Inl e)
    with Suc.prems d r1 have "res = Inl e" "w' = w1" by auto
    with Inl have "rounds_raise (Suc n) scheme p res [Call scheme p SALT, Return ret]"
      unfolding rounds_raise_def by (intro exI [of _ "[]"] exI [of _ e]) simp
    with ev st \<open>w' = w1\<close> show ?thesis by blast
  next
    case (Inr raw)
    let ?c = "urlsafe_b64encode (SALT @ raw)"
    from Suc.prems d r1 Inr
    have "derive_rounds n env p scheme (outputs @ [?c]) (emit (Sleep 1) w1) = (res, w')"
      by auto
    from Suc.IH [OF this] obtain new where
      ev': "events w' = events (emit (Sleep 1) w1) @ new" and
      st': "stdin w' = stdin (emit (Sleep 1) w1)" and
      alt: "rounds_ok n scheme p (outputs @ [?c]) res new \<or> rounds_raise n scheme p res new"
      by blast
    let ?new = "[Call scheme p SALT, Return (Inr raw), Sleep 1] @ new"
    have "events w' = events w @ ?new" "stdin w' = stdin w"
      using ev ev' st st' Inr by (simp_all add: emit_def)
    moreover from alt
    have "rounds_ok (Suc n) scheme p outputs res ?new \<or> rounds_raise (Suc n) scheme p res ?new"
      using rounds_ok_step rounds_raise_step by blast
    ultimately show ?thesis by blast
  qed
qed

text \<open>The reliable derivation of a known scheme, read off the log.\<close>

lemma reliable_log:
  assumes "dispatch scheme = Some (hasher :: 'b hasher)"
    and "generate_reliable_password (env :: 'b env) p scheme w = (r, w')"
  shows "\<exists>new. events w' = events w @ Stdout (banner @ [nl]) # new \<and> stdin w' = stdin w \<and>
           ((\<exists>raw1 raw2 raw3.
               returns new = [Inr raw1, Inr raw2, Inr raw3]
               \<and> calls new = replicate 3 (scheme, p, SALT)
               \<and> filter observable new = replicate 3 (Sleep 1)
               \<and> r = (if urlsafe_b64encode (SALT @ raw1) = urlsafe_b64encode (SALT @ raw2)
                         \<and> urlsafe_b64encode (SALT @ raw2) = urlsafe_b64encode (SALT @ raw3)
                       then Inr (urlsafe_b64encode (SALT @ raw1))
                       else Inl (ValueError inconsistent)))
          \<or> (\<exists>raws e.
               r = Inl e \<and> length raws < 3 \<and> returns new = map Inr raws @ [Inl e]
               \<and> calls new = replicate (Suc (length raws)) (scheme, p, SALT)
               \<and> filter observable new = replicate (length raws) (Sleep 1)))"
proof -
  obtain res w1 where d: "derive_rounds 3 env p scheme [] (print banner w) = (res, w1)"
    by (cases "derive_rounds 3 env p scheme [] (print banner w)")
  from derive_rounds_log [OF assms(1) d] obtain new where
    ev: "events w1 = events w @ Stdout (banner @ [nl]) # new" and
    st: "stdin w1 = stdin w" and
    alt: "rounds_ok 3 scheme p [] res new \<or> rounds_raise 3 scheme p res new"
    by (auto simp: print_def emit_def)
  from alt show ?thesis
  proof
    assume "rounds_ok 3 scheme p [] res new"
    then obtain raws where
      a: "res = Inr (map (\<lambda>raw. urlsafe_b64encode (SALT @ raw)) raws)" "length raws = 3"
        "returns new = map Inr raws" "calls new = replicate 3 (scheme, p, SALT)"
        "filter observable new = replicate 3 (Sleep 1)"
      unfolding rounds_ok_def by auto
    from a(2) obtain raw1 raw2 raw3 where raws: "raws = [raw1, raw2, raw3]"
      by (auto simp: length_Suc_conv numeral_3_eq_3)
    let ?c1 = "urlsafe_b64encode (SALT @ raw1)"
    let ?c2 = "urlsafe_b64encode (SALT @ raw2)"
    let ?c3 = "urlsafe_b64encode (SALT @ raw3)"
    from a(1) raws have res: "res = Inr [?c1, ?c2, ?c3]" by simp
    have "(r, w') = (if card (set [?c1, ?c2, ?c3]) = 1 then (Inr ([?c1, ?c2, ?c3] ! 0), w1)
                     else (Inl (ValueError inconsistent), w1))"
      using assms(2) unfolding generate_reliable_password_def d res by simp
    then have "w' = w1"
      "r = (if ?c1 = ?c2 \<and> ?c2 = ?c3 then Inr ?c1 else Inl (ValueError inconsistent))"
      unfolding card_set3 by (simp_all split: if_splits)
    with ev st a raws show ?thesis by auto
  next
    assume "rounds_raise 3 scheme p res new"
    then obtain raws e where
      a: "res = Inl e" "length raws < 3" "returns new = map Inr raws @ [Inl e]"
        "calls new = replicate (Suc (length raws)) (scheme, p, SALT)"
        "filter observable new = replicate (length raws) (Sleep 1)"
      unfolding rounds_raise_def by blast
    from assms(2) d a(1) have "w' = w1" "r = Inl e"
      by (auto simp: generate_reliable_password_def simp del: derive_rounds.simps)
    with ev st a show ?thesis by blast
  qed
qed

lemma reliable_unknown:
  assumes "scheme \<noteq> ''interactive''" "scheme \<noteq> ''deep''"
  shows "generate_reliable_password env p scheme w = (Inl (KeyError scheme), print banner w)"
  using assms
  by (simp add: generate_reliable_password_def numeral_3_eq_3 derive_password_unknown)

lemma with_size_Inr:
  assumes "generate_password_with_size env p scheme sz w = (Inr out, w')"
  shows "\<exists>full len. generate_reliable_password env p scheme w = (Inr full, w')
           \<and> SIZE_MAP sz = Some len \<and> out = apply_size len full"
  using assms
  by (auto simp: generate_password_with_size_def apply_size_def
      split: prod.splits sum.splits option.splits)

lemma with_size_eq:
  "generate_password_with_size env p scheme sz w =
     (case generate_reliable_password env p scheme w of
        (Inl e, w') \<Rightarrow> (Inl e, w')
      | (Inr full, w') \<Rightarrow>
          (case SIZE_MAP sz of None \<Rightarrow> (Inl (KeyError sz), w')
           | Some len \<Rightarrow> (Inr (apply_size len full), w')))"
  by (simp add: generate_password_with_size_def apply_size_def
      split: prod.splits sum.splits option.splits)

lemma reliable_success:
  assumes "generate_reliable_password (env :: 'b env) p scheme w = (Inr full, w')"
  shows "\<exists>new raw.
           events w' = events w @ Stdout (banner @ [nl]) # new
           \<and> calls new = replicate 3 (scheme, p, SALT)
           \<and> returns new = replicate 3 (Inr raw)
           \<and> full = urlsafe_b64encode (SALT @ raw)"
proof -
  have "scheme = ''interactive'' \<or> scheme = ''deep''"
    using assms reliable_unknown [of scheme env p w] by auto
  then obtain hasher :: "'b hasher" where "dispatch scheme = Some hasher"
    by (auto simp: dispatch_def)
  from reliable_log [OF this assms] obtain new raw1 raw2 raw3 where
    ev: "events w' = events w @ Stdout (banner @ [nl]) # new"
      "calls new = replicate 3 (scheme, p, SALT)" and
    rets: "returns new = [Inr raw1, Inr raw2, Inr raw3]" and
    r: "Inr full = (if urlsafe_b64encode (SALT @ raw1) = urlsafe_b64encode (SALT @ raw2)
                        \<and> urlsafe_b64encode (SALT @ raw2) = urlsafe_b64encode (SALT @ raw3)
                     then Inr (urlsafe_b64encode (SALT @ raw1))
                     else Inl (ValueError inconsistent))"
    by auto
  from r have "raw1 = raw2" "raw2 = raw3" "full = urlsafe_b64encode (SALT @ raw1)"
    by (simp_all add: candidate_inj split: if_splits)
  with rets have "returns new = replicate 3 (Inr raw1)"
    by (simp add: numeral_3_eq_3)
  with ev \<open>full = urlsafe_b64encode (SALT @ raw1)\<close> show ?thesis by blast
qed

lemma SIZE_MAP_short: "SIZE_MAP ''short'' = Some (Some 16)"
  by (simp add: SIZE_MAP_def)

text \<open>Runs on the stand-in environments.\<close>

lemma with_size_of_reliable:
  assumes "generate_reliable_password env p scheme w = (Inr full, w')"
    and "SIZE_MAP sz = Some len"
  shows "generate_password_with_size env p scheme sz w = (Inr (apply_size len full), w')"
  using assms by (simp add: with_size_eq)

lemma steady_interactive:
  "generate_reliable_password env_steady [0x78] ''interactive'' world0
     = (Inr (urlsafe_b64encode (SALT @ replicate 512 0)),
        snd (generate_reliable_password env_steady [0x78] ''interactive'' world0))"
  by (simp add: generate_reliable_password_def numeral_3_eq_3 derive_password_def dispatch_def
      pbkdf2_hasher_def utf8_char_def env_steady_def)

lemma SIZE_MAP_full: "SIZE_MAP ''full'' = Some None"
  by (simp add: SIZE_MAP_def)

lemma SIZE_MAP_medium: "SIZE_MAP ''medium'' = Some (Some 64)"
  by (simp add: SIZE_MAP_def)

lemma schemes_known: "scheme \<in> dom HASH_SCHEMES \<longleftrightarrow> scheme = ''interactive'' \<or> scheme = ''deep''"
  by (auto simp: HASH_SCHEMES_def split: if_splits)

lemma bare_deep:
  "generate_reliable_password env_bare [0x78] ''deep'' world0
     = (Inl (RuntimeError argon2_missing),
        \<lparr>events = [Stdout (banner @ [nl]), Call ''deep'' [0x78] SALT,
                   Return (Inl (RuntimeError argon2_missing))],
         stdin = [], backend = 0\<rparr>)"
  by (simp add: generate_reliable_password_def numeral_3_eq_3 derive_password_def dispatch_def
      argon2_hasher_def env_bare_def world0_def print_def emit_def)

lemma replicate_512: "replicate 512 x = x # replicate 511 x"
proof -
  have "(512 :: nat) = Suc 511" by simp
  then show ?thesis by (simp only: replicate_Suc)
qed

lemma encodings_differ:
  "urlsafe_b64encode (SALT @ replicate 512 0) \<noteq> urlsafe_b64encode (SALT @ replicate 512 1)"
proof
  assume "urlsafe_b64encode (SALT @ replicate 512 0) = urlsafe_b64encode (SALT @ replicate 512 1)"
  then have "take 24 (urlsafe_b64encode (SALT @ 0 # replicate 511 0))
           = take 24 (urlsafe_b64encode (SALT @ 1 # replicate 511 1))"
    by (simp only: replicate_512)
  then show False
    by (simp add: SALT_def urlsafe_b64encode_def b64_char_def b64_alphabet_def
        urlsafe_translate_def)
qed

text \<open>A backend that answers differently each time: the check fails.\<close>

lemma flaky_deep:
  "fst (generate_reliable_password env_flaky [0x78] ''deep'' world0)
     = Inl (ValueError inconsistent)"
proof -
  let ?c0 = "urlsafe_b64encode (SALT @ replicate 512 0)"
  let ?c1 = "urlsafe_b64encode (SALT @ replicate 512 1)"
  let ?c2 = "urlsafe_b64encode (SALT @ replicate 512 2)"
  let ?run = "derive_rounds 3 env_flaky [0x78] ''deep'' [] (print banner world0)"
  have rounds: "?run = (Inr [?c0, ?c1, ?c2], snd ?run)"
    by (simp add: numeral_3_eq_3 derive_password_def dispatch_def argon2_hasher_def
        utf8_char_def env_flaky_def world0_def print_def emit_def numeral_2_eq_2)
  have "generate_reliable_password env_flaky [0x78] ''deep'' world0
          = (if card (set [?c0, ?c1, ?c2]) = 1 then (Inr ([?c0, ?c1, ?c2] ! 0), snd ?run)
             else (Inl (ValueError inconsistent), snd ?run))"
    unfolding generate_reliable_password_def by (subst rounds) simp
  then show ?thesis
    unfolding card_set3 using encodings_differ by simp
qed







lemma encode_x: "encode_utf8 [0x78] = Inr [0x78]"
  by (simp add: utf8_char_def)

section \<open>The passphrase prompt and blank passphrases\<close>

lemma strip_Nil_iff: "strip p = [] \<longleftrightarrow> (\<forall>c \<in> set p. isspace c)"
proof
  assume "strip p = []"
  then have "dropWhile isspace (rev (dropWhile isspace p)) = []"
    by (simp add: strip_def)
  then have "\<forall>c \<in> set (dropWhile isspace p). isspace c"
    by (simp add: dropWhile_eq_Nil_conv)
  then have "dropWhile isspace p = []"
    using hd_dropWhile [of isspace p] by (cases "dropWhile isspace p") auto
  then show "\<forall>c \<in> set p. isspace c"
    by (simp add: dropWhile_eq_Nil_conv)
next
  assume "\<forall>c \<in> set p. isspace c"
  then show "strip p = []" by (auto simp: strip_def dest: set_dropWhileD)
qed

lemma utf8_char_space: "isspace c \<Longrightarrow> \<exists>b. utf8_char c = Inr b"
  by (auto simp: isspace_def utf8_char_def)

lemma encode_utf8_blank: "\<forall>c \<in> set p. isspace c \<Longrightarrow> \<exists>pw. encode_utf8 p = Inr pw"
proof (induction p)
  case Nil
  then show ?case by simp
next
  case (Cons c cs)
  then obtain b pw where "utf8_char c = Inr b" "encode_utf8 cs = Inr pw"
    using utf8_char_space [of c] by auto
  then show ?case by simp
qed

lemma interactive_reliable:
  assumes "encode_utf8 p = Inr pw"
  shows "fst (generate_reliable_password env p ''interactive'' w)
           = Inr (urlsafe_b64encode (SALT @ pbkdf2_hmac env ''sha256'' pw SALT 500000 512))"
  using assms
  by (simp add: generate_reliable_password_def numeral_3_eq_3 derive_password_def dispatch_def
      pbkdf2_hasher_def)

lemma interactive_with_size:
  assumes "encode_utf8 p = Inr pw" and "SIZE_MAP sz = Some len"
  shows "fst (generate_password_with_size env p ''interactive'' sz w)
           = Inr (apply_size len
                    (urlsafe_b64encode (SALT @ pbkdf2_hmac env ''sha256'' pw SALT 500000 512)))"
proof -
  from interactive_reliable [OF assms(1), of env w]
  have "generate_reliable_password env p ''interactive'' w
          = (Inr (urlsafe_b64encode (SALT @ pbkdf2_hmac env ''sha256'' pw SALT 500000 512)),
             snd (generate_reliable_password env p ''interactive'' w))"
    by (simp add: prod_eq_iff)
  from with_size_of_reliable [OF this assms(2)] show ?thesis by simp
qed

lemma ask_again_nonblank: "ask_again cur w = (Inr q, w') \<Longrightarrow> strip q \<noteq> []"
proof (induction cur w rule: ask_again.induct)
  case (1 cur w)
  show ?case
  proof (cases "strip cur = []")
    case False
    with "1.prems" show ?thesis by (simp add: ask_again.simps [of cur w])
  next
    case True
    obtain r1 w1 where i: "input prompt_again w = (r1, w1)"
      by (cases "input prompt_again w")
    show ?thesis
    proof (cases r1)
      case (Inl e)
      with "1.prems" True i show ?thesis by (simp add: ask_again.simps [of cur w])
    next
      case (Inr l)
      with "1.prems" True i have "ask_again l w1 = (Inr q, w')"
        by (simp add: ask_again.simps [of cur w])
      with "1.IH" [OF True i [symmetric] Inr] show ?thesis by simp
    qed
  qed
qed

lemma read_passphrase_nonblank:
  assumes "read_passphrase given w = (Inr q, w')"
  shows "strip q \<noteq> []"
proof (cases "given = None \<or> given = Some []")
  case False
  with assms have "ask_again (the given) w = (Inr q, w')"
    by (simp add: read_passphrase_def)
  then show ?thesis by (rule ask_again_nonblank)
next
  case True
  obtain r1 w1 where i: "input prompt_first w = (r1, w1)"
    by (cases "input prompt_first w")
  with assms True show ?thesis
    by (cases r1) (auto simp: read_passphrase_def dest: ask_again_nonblank)
qed

section \<open>The reliable derivation in terms of the selected hasher\<close>

text \<open>
  For a scheme of the dispatch table, the three rounds written out: what the selected
  hasher is applied to, in which world, what becomes of its result, and the log that is
  left. The four cases are: all three invocations return; the first, the second or the
  third raises.
\<close>

lemma derive_password_known:
  assumes "dispatch scheme = Some (hasher :: 'b hasher)"
    and "hasher (env :: 'b env) p salt (emit (Call scheme p salt) u) = (ret, v)"
  shows "derive_password env p scheme salt u
           = (map_sum id (\<lambda>raw. urlsafe_b64encode (salt @ raw)) ret, emit (Return ret) v)"
    and "events (emit (Return ret) v) = events u @ [Call scheme p salt, Return ret]"
proof -
  show "derive_password env p scheme salt u
           = (map_sum id (\<lambda>raw. urlsafe_b64encode (salt @ raw)) ret, emit (Return ret) v)"
    using assms by (cases ret) (simp_all add: derive_password_def)
  from hasher_frame [OF assms] show "events (emit (Return ret) v) = events u @ [Call scheme p salt, Return ret]"
    by (simp add: emit_def)
qed

lemma reliable_cases:
  assumes "dispatch scheme = Some (hasher :: 'b hasher)"
    and "generate_reliable_password (env :: 'b env) p scheme w = (r, w')"
  shows
    "let invoke = (\<lambda>u. hasher env p SALT (emit (Call scheme p SALT) u));
         after = (\<lambda>raw v. emit (Sleep 1) (emit (Return (Inr raw)) v));
         candidate = (\<lambda>raw. urlsafe_b64encode (SALT @ raw))
     in (\<exists>raw1 v1 raw2 v2 raw3 v3.
           invoke (print banner w) = (Inr raw1, v1)
           \<and> invoke (after raw1 v1) = (Inr raw2, v2)
           \<and> invoke (after raw2 v2) = (Inr raw3, v3)
           \<and> w' = after raw3 v3
           \<and> events w' = events w @
                [Stdout (banner @ [nl]),
                 Call scheme p SALT, Return (Inr raw1), Sleep 1,
                 Call scheme p SALT, Return (Inr raw2), Sleep 1,
                 Call scheme p SALT, Return (Inr raw3), Sleep 1]
           \<and> r = (if candidate raw1 = candidate raw2 \<and> candidate raw2 = candidate raw3
                   then Inr (candidate raw1) else Inl (ValueError inconsistent)))
      \<or> (\<exists>e v.
           invoke (print banner w) = (Inl e, v)
           \<and> w' = emit (Return (Inl e)) v
           \<and> events w' = events w @
                [Stdout (banner @ [nl]), Call scheme p SALT, Return (Inl e)]
           \<and> r = Inl e)
      \<or> (\<exists>raw1 v1 e v.
           invoke (print banner w) = (Inr raw1, v1)
           \<and> invoke (after raw1 v1) = (Inl e, v)
           \<and> w' = emit (Return (Inl e)) v
           \<and> events w' = events w @
                [Stdout (banner @ [nl]),
                 Call scheme p SALT, Return (Inr raw1), Sleep 1,
                 Call scheme p SALT, Return (Inl e)]
           \<and> r = Inl e)
      \<or> (\<exists>raw1 v1 raw2 v2 e v.
           invoke (print banner w) = (Inr raw1, v1)
           \<and> invoke (after raw1 v1) = (Inr raw2, v2)
           \<and> invoke (after raw2 v2) = (Inl e, v)
           \<and> w' = emit (Return (Inl e)) v
           \<and> events w' = events w @
                [Stdout (banner @ [nl]),
                 Call scheme p SALT, Return (Inr raw1), Sleep 1,
                 Call scheme p SALT, Return (Inr raw2), Sleep 1,
                 Call scheme p SALT, Return (Inl e)]
           \<and> r = Inl e)"
proof -
  let ?c = "Call scheme p SALT"
  let ?w0 = "print banner w"
  note known = derive_password_known [OF assms(1)]
  have e0: "events ?w0 = events w @ [Stdout (banner @ [nl])]"
    by (simp add: print_def emit_def)
  have unroll: "generate_reliable_password env p scheme w =
     (case derive_rounds (Suc (Suc (Suc 0))) env p scheme [] ?w0 of
        (Inl e, w') \<Rightarrow> (Inl e, w')
      | (Inr outputs, w') \<Rightarrow>
          if card (set outputs) = 1 then (Inr (outputs ! 0), w')
          else (Inl (ValueError inconsistent), w'))"
    by (simp add: generate_reliable_password_def numeral_3_eq_3)
  obtain r1 v1 where h1: "hasher env p SALT (emit ?c ?w0) = (r1, v1)"
    by (cases "hasher env p SALT (emit ?c ?w0)")
  note d1 = known [OF h1]
  show ?thesis
  proof (cases r1)
    case (Inl e)
    with assms(2) d1(1) have "r = Inl e" "w' = emit (Return (Inl e)) v1"
      unfolding unroll by simp_all
    with h1 Inl d1(2) e0 show ?thesis
      unfolding Let_def by (intro disjI2 disjI1) auto
  next
    case raw1: (Inr raw1)
    let ?u1 = "emit (Sleep 1) (emit (Return (Inr raw1)) v1)"
    have e1: "events ?u1 = events w @ [Stdout (banner @ [nl]), ?c, Return (Inr raw1), Sleep 1]"
      using d1(2) e0 raw1 by (simp add: emit_def)
    obtain r2 v2 where h2: "hasher env p SALT (emit ?c ?u1) = (r2, v2)"
      by (cases "hasher env p SALT (emit ?c ?u1)")
    note d2 = known [OF h2]
    show ?thesis
    proof (cases r2)
      case (Inl e)
      with assms(2) d1(1) d2(1) raw1 have "r = Inl e" "w' = emit (Return (Inl e)) v2"
        unfolding unroll by simp_all
      moreover have "events (emit (Return (Inl e)) v2) = events w @
                [Stdout (banner @ [nl]), ?c, Return (Inr raw1), Sleep 1, ?c, Return (Inl e)]"
        using d2(2) e1 Inl by simp
      ultimately show ?thesis
        using h1 h2 raw1 Inl unfolding Let_def
        by (intro disjI2 disjI1) auto
    next
      case raw2: (Inr raw2)
      let ?u2 = "emit (Sleep 1) (emit (Return (Inr raw2)) v2)"
      have e2: "events ?u2 = events w @ [Stdout (banner @ [nl]), ?c, Return (Inr raw1), Sleep 1,
                  ?c, Return (Inr raw2), Sleep 1]"
        using d2(2) e1 raw2 by (simp add: emit_def)
      obtain r3 v3 where h3: "hasher env p SALT (emit ?c ?u2) = (r3, v3)"
        by (cases "hasher env p SALT (emit ?c ?u2)")
      note d3 = known [OF h3]
      show ?thesis
      proof (cases r3)
        case (Inl e)
        with assms(2) d1(1) d2(1) d3(1) raw1 raw2
        have "r = Inl e" "w' = emit (Return (Inl e)) v3"
          unfolding unroll by simp_all
        moreover have "events (emit (Return (Inl e)) v3) = events w @
                [Stdout (banner @ [nl]), ?c, Return (Inr raw1), Sleep 1,
                 ?c, Return (Inr raw2), Sleep 1, ?c, Return (Inl e)]"
          using d3(2) e2 Inl by simp
        ultimately show ?thesis
          using h1 h2 h3 raw1 raw2 Inl unfolding Let_def
          by (intro disjI2) auto
      next
        case raw3: (Inr raw3)
        let ?u3 = "emit (Sleep 1) (emit (Return (Inr raw3)) v3)"
        let ?c1 = "urlsafe_b64encode (SALT @ raw1)"
        let ?c2 = "urlsafe_b64encode (SALT @ raw2)"
        let ?c3 = "urlsafe_b64encode (SALT @ raw3)"
        have e3: "events ?u3 = events w @ [Stdout (banner @ [nl]), ?c, Return (Inr raw1), Sleep 1,
                  ?c, Return (Inr raw2), Sleep 1, ?c, Return (Inr raw3), Sleep 1]"
          using d3(2) e2 raw3 by (simp add: emit_def)
        have rounds:
          "derive_rounds (Suc (Suc (Suc 0))) env p scheme [] ?w0 = (Inr [?c1, ?c2, ?c3], ?u3)"
          using d1(1) d2(1) d3(1) raw1 raw2 raw3 by simp
        from assms(2) have "(if card (set [?c1, ?c2, ?c3]) = 1
                             then (Inr ([?c1, ?c2, ?c3] ! 0), ?u3)
                             else (Inl (ValueError inconsistent), ?u3)) = (r, w')"
          unfolding unroll rounds by (simp only: prod.case sum.case)
        then have "w' = ?u3"
          "r = (if ?c1 = ?c2 \<and> ?c2 = ?c3 then Inr ?c1 else Inl (ValueError inconsistent))"
          unfolding card_set3 by (auto split: if_splits)
        with h1 h2 h3 raw1 raw2 raw3 e3 show ?thesis
          unfolding Let_def by (intro disjI1) auto
      qed
    qed
  qed
qed

lemma dispatch_interactive: "dispatch ''interactive'' = Some pbkdf2_hasher"
  by (simp add: dispatch_def)

lemma steady_full:
  "generate_password_with_size env_steady [0x78] ''interactive'' ''full'' world0
     = (Inr (urlsafe_b64encode (SALT @ replicate 512 0)),
        snd (generate_reliable_password env_steady [0x78] ''interactive'' world0))"
  using with_size_of_reliable [OF steady_interactive SIZE_MAP_full]
  by (simp add: apply_size_def)

section \<open>The padding of the encoding\<close>

text \<open>
  An encoding is a run of characters of the alphabet followed by the padding: no
  \<^verbatim>\<open>=\<close> when the number of bytes is a multiple of three, two after a last group of one
  byte, one after a last group of two.
\<close>

lemma b64encode_shape:
  "\<exists>body. b64encode bs = body @ replicate ((3 - length bs mod 3) mod 3) (CHR ''='')
          \<and> set body \<subseteq> set b64_alphabet"
proof (induction bs rule: b64encode.induct)
  case 1
  show ?case by simp
next
  case (2 a)
  have "b64encode [a] = [b64_char (unat a * 16 div 64), b64_char (unat a * 16)]
                          @ replicate ((3 - length [a] mod 3) mod 3) (CHR ''='')"
    by (simp add: Let_def numeral_2_eq_2)
  moreover have "set [b64_char (unat a * 16 div 64), b64_char (unat a * 16)] \<subseteq> set b64_alphabet"
    using b64_char_in by simp
  ultimately show ?case by blast
next
  case (3 a b)
  let ?n = "(unat a * 256 + unat b) * 4"
  have "b64encode [a, b] = [b64_char (?n div 4096), b64_char (?n div 64), b64_char ?n]
                          @ replicate ((3 - length [a, b] mod 3) mod 3) (CHR ''='')"
    by (simp add: Let_def)
  moreover have "set [b64_char (?n div 4096), b64_char (?n div 64), b64_char ?n]
                   \<subseteq> set b64_alphabet"
    using b64_char_in by simp
  ultimately show ?case by blast
next
  case (4 a b c rest)
  then obtain body where
    body: "b64encode rest = body @ replicate ((3 - length rest mod 3) mod 3) (CHR ''='')"
      "set body \<subseteq> set b64_alphabet"
    by blast
  let ?n = "unat a * 65536 + unat b * 256 + unat c"
  let ?g = "[b64_char (?n div 262144), b64_char (?n div 4096), b64_char (?n div 64), b64_char ?n]"
  have m: "length (a # b # c # rest) mod 3 = length rest mod 3" by simp
  have "b64encode (a # b # c # rest)
          = (?g @ body) @ replicate ((3 - length (a # b # c # rest) mod 3) mod 3) (CHR ''='')"
    unfolding m using body(1) by (simp add: Let_def)
  moreover have "set (?g @ body) \<subseteq> set b64_alphabet"
    using body(2) b64_char_in by simp
  ultimately show ?case by blast
qed

lemma urlsafe_b64encode_shape:
  "\<exists>body. urlsafe_b64encode bs = body @ replicate ((3 - length bs mod 3) mod 3) (CHR ''='')
          \<and> set body \<subseteq> set urlsafe_alphabet"
proof -
  from b64encode_shape [of bs] obtain body where
    body: "b64encode bs = body @ replicate ((3 - length bs mod 3) mod 3) (CHR ''='')"
      "set body \<subseteq> set b64_alphabet"
    by blast
  have "urlsafe_b64encode bs
          = map urlsafe_translate body @ replicate ((3 - length bs mod 3) mod 3) (CHR ''='')"
    unfolding urlsafe_b64encode_def body(1) by (simp add: urlsafe_translate_def)
  moreover have "set (map urlsafe_translate body) \<subseteq> set urlsafe_alphabet"
    using body(2) translate_alphabet by auto
  ultimately show ?thesis by blast
qed

lemma length_SALT: "length SALT = 17"
  by (simp add: SALT_def)

lemma SIZE_MAP_bound: "SIZE_MAP sz = Some (Some n) \<Longrightarrow> n \<le> 472"
  by (auto simp: SIZE_MAP_def split: if_splits)

lemma pad_not_in_alphabet: "CHR ''='' \<notin> set urlsafe_alphabet"
  by (simp add: urlsafe_alphabet_def)

section \<open>The claims\<close>

text \<open>
  Claim C1, as the code has it. The reliable derivation applies the hasher that the
  dispatch table selects for the scheme to the passphrase and \<open>SALT\<close>, each time in the
  world the previous round left. If the three invocations return, there are exactly
  three of them, each result is encoded into a candidate, and the outcome is the
  candidate when the three are equal and the \<open>ValueError\<close> of an inconsistent
  derivation otherwise. If an invocation raises, it is the last one, and its exception
  is the outcome.
\<close>

theorem reliable_derivation:
  assumes "dispatch scheme = Some (hasher :: 'b hasher)"
    and "generate_reliable_password (env :: 'b env) p scheme w = (r, w')"
  shows
    "let invoke = (\<lambda>u. hasher env p SALT (emit (Call scheme p SALT) u));
         after = (\<lambda>raw v. emit (Sleep 1) (emit (Return (Inr raw)) v));
         candidate = (\<lambda>raw. urlsafe_b64encode (SALT @ raw))
     in (\<exists>raw1 v1 raw2 v2 raw3 v3.
           invoke (print banner w) = (Inr raw1, v1)
           \<and> invoke (after raw1 v1) = (Inr raw2, v2)
           \<and> invoke (after raw2 v2) = (Inr raw3, v3)
           \<and> w' = after raw3 v3
           \<and> events w' = events w @
                [Stdout (banner @ [nl]),
                 Call scheme p SALT, Return (Inr raw1), Sleep 1,
                 Call scheme p SALT, Return (Inr raw2), Sleep 1,
                 Call scheme p SALT, Return (Inr raw3), Sleep 1]
           \<and> r = (if candidate raw1 = candidate raw2 \<and> candidate raw2 = candidate raw3
                   then Inr (candidate raw1) else Inl (ValueError inconsistent)))
      \<or> (\<exists>e v.
           invoke (print banner w) = (Inl e, v)
           \<and> w' = emit (Return (Inl e)) v
           \<and> events w' = events w @
                [Stdout (banner @ [nl]), Call scheme p SALT, Return (Inl e)]
           \<and> r = Inl e)
      \<or> (\<exists>raw1 v1 e v.
           invoke (print banner w) = (Inr raw1, v1)
           \<and> invoke (after raw1 v1) = (Inl e, v)
           \<and> w' = emit (Return (Inl e)) v
           \<and> events w' = events w @
                [Stdout (banner @ [nl]),
                 Call scheme p SALT, Return (Inr raw1), Sleep 1,
                 Call scheme p SALT, Return (Inl e)]
           \<and> r = Inl e)
      \<or> (\<exists>raw1 v1 raw2 v2 e v.
           invoke (print banner w) = (Inr raw1, v1)
           \<and> invoke (after raw1 v1) = (Inr raw2, v2)
           \<and> invoke (after raw2 v2) = (Inl e, v)
           \<and> w' = emit (Return (Inl e)) v
           \<and> events w' = events w @
                [Stdout (banner @ [nl]),
                 Call scheme p SALT, Return (Inr raw1), Sleep 1,
                 Call scheme p SALT, Return (Inr raw2), Sleep 1,
                 Call scheme p SALT, Return (Inl e)]
           \<and> r = Inl e)"
  using assms by (rule reliable_cases)

theorem reliable_derivation_witness:
  "dispatch ''interactive'' = Some (pbkdf2_hasher :: nat hasher)
   \<and> generate_reliable_password env_steady [0x78] ''interactive'' world0
       = (Inr (urlsafe_b64encode (SALT @ replicate 512 0)),
          snd (generate_reliable_password env_steady [0x78] ''interactive'' world0))
   \<and> (\<exists>raw1 v1 raw2 v2 raw3 v3.
         pbkdf2_hasher env_steady [0x78] SALT
             (emit (Call ''interactive'' [0x78] SALT) (print banner world0)) = (Inr raw1, v1)
         \<and> pbkdf2_hasher env_steady [0x78] SALT
             (emit (Call ''interactive'' [0x78] SALT)
                (emit (Sleep 1) (emit (Return (Inr raw1)) v1))) = (Inr raw2, v2)
         \<and> pbkdf2_hasher env_steady [0x78] SALT
             (emit (Call ''interactive'' [0x78] SALT)
                (emit (Sleep 1) (emit (Return (Inr raw2)) v2))) = (Inr raw3, v3)
         \<and> snd (generate_reliable_password env_steady [0x78] ''interactive'' world0)
             = emit (Sleep 1) (emit (Return (Inr raw3)) v3))"
proof -
  from reliable_derivation [OF dispatch_interactive steady_interactive]
  have "\<exists>raw1 v1 raw2 v2 raw3 v3.
         pbkdf2_hasher env_steady [0x78] SALT
             (emit (Call ''interactive'' [0x78] SALT) (print banner world0)) = (Inr raw1, v1)
         \<and> pbkdf2_hasher env_steady [0x78] SALT
             (emit (Call ''interactive'' [0x78] SALT)
                (emit (Sleep 1) (emit (Return (Inr raw1)) v1))) = (Inr raw2, v2)
         \<and> pbkdf2_hasher env_steady [0x78] SALT
             (emit (Call ''interactive'' [0x78] SALT)
                (emit (Sleep 1) (emit (Return (Inr raw2)) v2))) = (Inr raw3, v3)
         \<and> snd (generate_reliable_password env_steady [0x78] ''interactive'' world0)
             = emit (Sleep 1) (emit (Return (Inr raw3)) v3)"
    unfolding Let_def
    apply (elim disjE exE conjE)
       apply blast
      apply simp_all
    done
  with dispatch_interactive steady_interactive show ?thesis by blast
qed

theorem single_invocation_counterexample:
  "length (calls (events (snd (generate_reliable_password env_bare [0x78] ''deep'' world0)))) = 1
   \<and> length (calls (events (snd (generate_reliable_password env_bare [0x78] ''deep'' world0)))) \<noteq> 3
   \<and> fst (generate_reliable_password env_bare [0x78] ''deep'' world0)
       = Inl (RuntimeError argon2_missing)
   \<and> fst (generate_reliable_password env_bare [0x78] ''deep'' world0)
       \<noteq> Inl (ValueError inconsistent)"
  by (simp add: bare_deep)

text \<open>
  Claim C2. For a size identifier that \<open>SIZE_MAP\<close> maps to a length \<open>n\<close> (every one but
  \<^verbatim>\<open>full\<close>), the derivation at that size is the derivation at \<^verbatim>\<open>full\<close> from the same
  world with its result cut to the first \<open>n\<close> characters; an error of the one is the
  same error of the other.
\<close>

theorem truncation_of_full:
  assumes "SIZE_MAP sz = Some (Some n)"
  shows "generate_password_with_size env p scheme sz w =
           (case generate_password_with_size env p scheme ''full'' w of
              (r, w') \<Rightarrow> (map_sum id (take n) r, w'))"
  using assms
  by (simp add: with_size_eq SIZE_MAP_full apply_size_def split: prod.splits sum.splits)

theorem truncation_of_full_witness:
  "SIZE_MAP ''medium'' = Some (Some 64)
   \<and> generate_password_with_size env_steady [0x78] ''interactive'' ''full'' world0
       = (Inr (urlsafe_b64encode (SALT @ replicate 512 0)),
          snd (generate_reliable_password env_steady [0x78] ''interactive'' world0))
   \<and> generate_password_with_size env_steady [0x78] ''interactive'' ''medium'' world0
       = (Inr (take 64 (urlsafe_b64encode (SALT @ replicate 512 0))),
          snd (generate_reliable_password env_steady [0x78] ''interactive'' world0))"
proof -
  have full: "generate_password_with_size env_steady [0x78] ''interactive'' ''full'' world0
       = (Inr (urlsafe_b64encode (SALT @ replicate 512 0)),
          snd (generate_reliable_password env_steady [0x78] ''interactive'' world0))"
    using with_size_of_reliable [OF steady_interactive SIZE_MAP_full]
    by (simp add: apply_size_def)
  from truncation_of_full [OF SIZE_MAP_medium, of env_steady "[0x78]" "''interactive''" world0]
  show ?thesis unfolding full using SIZE_MAP_medium by simp
qed

text \<open>
  Claim C3, as the code has it. The derivation does not look at the passphrase before
  hashing it: a passphrase that is empty, or blank after \<^verbatim>\<open>strip()\<close>, can be encoded, and
  under the \<^verbatim>\<open>interactive\<close> scheme the derivation succeeds with the encoding of the salt
  and the PBKDF2 output for it, cut to the size. The rejection is the caller's: the
  passphrase that the prompt of \<open>main\<close> hands on is never blank.
\<close>

theorem blank_passphrase_is_derived:
  assumes "strip p = []" and "SIZE_MAP sz = Some len"
  shows "(\<exists>pw. encode_utf8 p = Inr pw
            \<and> fst (generate_password_with_size env p ''interactive'' sz w)
                = Inr (apply_size len
                         (urlsafe_b64encode
                            (SALT @ pbkdf2_hmac env ''sha256'' pw SALT 500000 512))))
       \<and> (\<forall>q w1. read_passphrase given w0 = (Inr q, w1) \<longrightarrow> strip q \<noteq> [])"
proof -
  from assms(1) obtain pw where pw: "encode_utf8 p = Inr pw"
    using encode_utf8_blank by (auto simp: strip_Nil_iff)
  from interactive_with_size [OF pw assms(2)] pw read_passphrase_nonblank
  show ?thesis by blast
qed

theorem blank_passphrase_is_derived_witness:
  "strip [0x20, 0x09] = [] \<and> SIZE_MAP ''full'' = Some None
   \<and> encode_utf8 [0x20, 0x09] = Inr [0x20, 0x09]
   \<and> fst (generate_password_with_size env_steady [0x20, 0x09] ''interactive'' ''full'' world0)
       = Inr (urlsafe_b64encode (SALT @ replicate 512 0))
   \<and> read_passphrase (Some [0x20]) (world0\<lparr>stdin := [[], [0x78, 0x20]]\<rparr>)
       = (Inr [0x78, 0x20],
          world0\<lparr>events := [Stdout prompt_again, Stdout prompt_again], stdin := []\<rparr>)
   \<and> strip [0x78, 0x20] \<noteq> []"
proof -
  have s: "strip [0x20, 0x09] = []" by (simp add: strip_def isspace_def)
  have e: "encode_utf8 [0x20, 0x09] = Inr [0x20, 0x09]" by (simp add: utf8_char_def)
  have v: "pbkdf2_hmac env_steady ''sha256'' [0x20, 0x09] SALT 500000 512 = replicate 512 0"
    by (simp add: env_steady_def)
  have r: "read_passphrase (Some [0x20]) (world0\<lparr>stdin := [[], [0x78, 0x20]]\<rparr>)
       = (Inr [0x78, 0x20],
          world0\<lparr>events := [Stdout prompt_again, Stdout prompt_again], stdin := []\<rparr>)"
    by (simp add: read_passphrase_def ask_again.simps input_def emit_def world0_def
        strip_def isspace_def)
  from blank_passphrase_is_derived [OF s SIZE_MAP_full, of env_steady world0 "Some [0x20]"
      "world0\<lparr>stdin := [[], [0x78, 0x20]]\<rparr>"] s e v r SIZE_MAP_full
  show ?thesis by (auto simp: apply_size_def)
qed

theorem empty_passphrase_counterexample:
  "strip [] = []
   \<and> fst (generate_password_with_size env_steady [] ''interactive'' ''full'' world0)
       = Inr (urlsafe_b64encode (SALT @ replicate 512 0))"
proof -
  have "encode_utf8 [] = Inr []" by simp
  from interactive_with_size [OF this SIZE_MAP_full, of env_steady world0]
  show ?thesis by (simp add: apply_size_def env_steady_def strip_def)
qed

text \<open>
  Claim C4, as the code has it. A successful derivation returns printable ASCII
  characters, as many as the size asks for and at most the length of the full string;
  all of the full string at size \<^verbatim>\<open>full\<close>. The full string is the encoding with its
  padding: characters of the URL-safe base64 alphabet followed by the \<^verbatim>\<open>=\<close> signs that
  fill the last group. When the hasher returns 512 bytes the full string has 708
  characters and ends in \<^verbatim>\<open>==\<close>, which is not of the alphabet; the output at every other
  size of the table stops before the padding and is drawn from the alphabet alone.
\<close>

theorem output_contract:
  assumes "generate_password_with_size env p scheme sz w = (Inr out, w')"
  shows "\<exists>full len raw body.
           generate_reliable_password env p scheme w = (Inr full, w')
           \<and> SIZE_MAP sz = Some len
           \<and> out = (case len of None \<Rightarrow> full | Some n \<Rightarrow> take n full)
           \<and> length out = (case len of None \<Rightarrow> length full | Some n \<Rightarrow> min n (length full))
           \<and> list_all printable out
           \<and> full = urlsafe_b64encode (SALT @ raw)
           \<and> full = body @ replicate ((3 - length (SALT @ raw) mod 3) mod 3) (CHR ''='')
           \<and> set body \<subseteq> set urlsafe_alphabet
           \<and> (length raw = 512 \<longrightarrow>
                length full = 708 \<and> full = body @ ''==''
                \<and> (len \<noteq> None \<longrightarrow> set out \<subseteq> set urlsafe_alphabet))"
proof -
  from with_size_Inr [OF assms] obtain full len where
    full: "generate_reliable_password env p scheme w = (Inr full, w')" and
    len: "SIZE_MAP sz = Some len" and out: "out = apply_size len full"
    by blast
  from reliable_success [OF full] obtain raw where raw: "full = urlsafe_b64encode (SALT @ raw)"
    by blast
  let ?k = "(3 - length (SALT @ raw) mod 3) mod 3"
  from urlsafe_b64encode_shape [of "SALT @ raw"] raw obtain body where
    body: "full = body @ replicate ?k (CHR ''='')" "set body \<subseteq> set urlsafe_alphabet"
    by auto
  have o: "out = (case len of None \<Rightarrow> full | Some n \<Rightarrow> take n full)"
    using out by (simp add: apply_size_def)
  have l: "length out = (case len of None \<Rightarrow> length full | Some n \<Rightarrow> min n (length full))"
    using o by (simp add: min.commute split: option.splits)
  have "set out \<subseteq> set full"
    using o by (auto split: option.splits dest: in_set_takeD)
  with raw set_urlsafe_b64encode [of "SALT @ raw"]
  have "set out \<subseteq> set urlsafe_alphabet \<union> {CHR ''=''}" by blast
  then have pr: "list_all printable out"
    unfolding list_all_iff using printable_alphabet by blast
  have big: "length full = 708 \<and> full = body @ ''==''
                \<and> (len \<noteq> None \<longrightarrow> set out \<subseteq> set urlsafe_alphabet)"
    if r: "length raw = 512"
  proof -
    from r have k: "?k = 2" by (simp add: length_SALT)
    from r raw have lf: "length full = 708"
      by (simp add: length_urlsafe_b64encode length_SALT)
    from body(1) k have fb: "full = body @ ''==''" by (simp add: numeral_2_eq_2)
    with lf have lb: "length body = 706" by simp
    have "set out \<subseteq> set urlsafe_alphabet" if "len \<noteq> None"
    proof -
      from that obtain n where n: "len = Some n" by auto
      with len have "n \<le> 472" by (simp add: SIZE_MAP_bound)
      with lb have "take n full = take n body" unfolding fb by simp
      with o n have "out = take n body" by simp
      then have "set out \<subseteq> set body" by (auto dest: in_set_takeD)
      with body(2) show ?thesis by blast
    qed
    with lf fb show ?thesis by blast
  qed
  from full len o l pr raw body big show ?thesis by blast
qed

theorem output_contract_witness:
  "generate_password_with_size env_steady [0x78] ''interactive'' ''full'' world0
     = (Inr (urlsafe_b64encode (SALT @ replicate 512 0)),
        snd (generate_reliable_password env_steady [0x78] ''interactive'' world0))
   \<and> length (replicate 512 (0 :: 8 word)) = 512
   \<and> length (urlsafe_b64encode (SALT @ replicate 512 0)) = 708
   \<and> list_all printable (urlsafe_b64encode (SALT @ replicate 512 0))
   \<and> (\<exists>body. urlsafe_b64encode (SALT @ replicate 512 0) = body @ ''==''
         \<and> set body \<subseteq> set urlsafe_alphabet)"
proof -
  from output_contract [OF steady_full] obtain full len raw body where
    a: "generate_reliable_password env_steady [0x78] ''interactive'' world0
          = (Inr full, snd (generate_reliable_password env_steady [0x78] ''interactive'' world0))"
      "SIZE_MAP ''full'' = Some len"
      "urlsafe_b64encode (SALT @ replicate 512 0)
         = (case len of None \<Rightarrow> full | Some n \<Rightarrow> take n full)"
      "list_all printable (urlsafe_b64encode (SALT @ replicate 512 0))"
      "full = urlsafe_b64encode (SALT @ raw)"
      "set body \<subseteq> set urlsafe_alphabet"
      "length raw = 512 \<longrightarrow> length full = 708 \<and> full = body @ ''==''
                \<and> (len \<noteq> None \<longrightarrow> set (urlsafe_b64encode (SALT @ replicate 512 0))
                                     \<subseteq> set urlsafe_alphabet)"
    by blast
  from a(2,3) have f: "full = urlsafe_b64encode (SALT @ replicate 512 0)"
    by (simp add: SIZE_MAP_full)
  with a(5) have "raw = replicate 512 0" by (simp add: candidate_inj)
  then have "length raw = 512" by simp
  with a(7) have "length full = 708" "full = body @ ''==''" by blast+
  then have "length (urlsafe_b64encode (SALT @ replicate 512 0)) = 708"
    "urlsafe_b64encode (SALT @ replicate 512 0) = body @ ''==''"
    unfolding f .
  with a(4,6) steady_full show ?thesis by auto
qed

theorem padding_counterexample:
  "fst (generate_password_with_size env_steady [0x78] ''interactive'' ''full'' world0)
     = Inr (urlsafe_b64encode (SALT @ replicate 512 0))
   \<and> CHR ''='' \<in> set (urlsafe_b64encode (SALT @ replicate 512 0))
   \<and> CHR ''='' \<notin> set urlsafe_alphabet"
proof -
  from urlsafe_b64encode_shape [of "SALT @ replicate 512 0"] obtain body where
    "urlsafe_b64encode (SALT @ replicate 512 0) = body @ replicate 2 (CHR ''='')"
    by (auto simp: length_SALT)
  then have "CHR ''='' \<in> set (urlsafe_b64encode (SALT @ replicate 512 0))"
    by (simp add: numeral_2_eq_2)
  with steady_full pad_not_in_alphabet show ?thesis by simp
qed

text \<open>
  Claim C5. The output of a successful derivation is the URL-safe base64 encoding of
  \<open>SALT\<close> followed by \<open>raw\<close>, whole at size \<^verbatim>\<open>full\<close> and cut to the mapped length
  otherwise: the cut is made on the encoded string. Here \<open>raw\<close> is what the hasher
  selected for the scheme returned when applied to the passphrase and \<open>SALT\<close>, the
  same bytes at each of its three invocations.
\<close>

theorem derived_secret_encoding:
  assumes "generate_password_with_size (env :: 'b env) p scheme sz w = (Inr out, w')"
  shows "\<exists>(hasher :: 'b hasher) raw v1 v2 v3 len.
           dispatch scheme = Some hasher
           \<and> hasher env p SALT (emit (Call scheme p SALT) (print banner w)) = (Inr raw, v1)
           \<and> hasher env p SALT
               (emit (Call scheme p SALT) (emit (Sleep 1) (emit (Return (Inr raw)) v1)))
               = (Inr raw, v2)
           \<and> hasher env p SALT
               (emit (Call scheme p SALT) (emit (Sleep 1) (emit (Return (Inr raw)) v2)))
               = (Inr raw, v3)
           \<and> w' = emit (Sleep 1) (emit (Return (Inr raw)) v3)
           \<and> SIZE_MAP sz = Some len
           \<and> out = (case len of
                      None \<Rightarrow> urlsafe_b64encode (SALT @ raw)
                    | Some n \<Rightarrow> take n (urlsafe_b64encode (SALT @ raw)))"
proof -
  from with_size_Inr [OF assms] obtain full len where
    full: "generate_reliable_password env p scheme w = (Inr full, w')" and
    len: "SIZE_MAP sz = Some len" and out: "out = apply_size len full"
    by blast
  have "scheme = ''interactive'' \<or> scheme = ''deep''"
    using full reliable_unknown [of scheme env p w] by auto
  then obtain hasher :: "'b hasher" where d: "dispatch scheme = Some hasher"
    by (auto simp: dispatch_def)
  from reliable_cases [OF d full] obtain raw1 v1 raw2 v2 raw3 v3 where
    h: "hasher env p SALT (emit (Call scheme p SALT) (print banner w)) = (Inr raw1, v1)"
      "hasher env p SALT
         (emit (Call scheme p SALT) (emit (Sleep 1) (emit (Return (Inr raw1)) v1)))
         = (Inr raw2, v2)"
      "hasher env p SALT
         (emit (Call scheme p SALT) (emit (Sleep 1) (emit (Return (Inr raw2)) v2)))
         = (Inr raw3, v3)"
      "w' = emit (Sleep 1) (emit (Return (Inr raw3)) v3)" and
    r: "Inr full = (if urlsafe_b64encode (SALT @ raw1) = urlsafe_b64encode (SALT @ raw2)
                        \<and> urlsafe_b64encode (SALT @ raw2) = urlsafe_b64encode (SALT @ raw3)
                     then Inr (urlsafe_b64encode (SALT @ raw1))
                     else Inl (ValueError inconsistent))"
    unfolding Let_def by (elim disjE exE conjE) simp_all
  from r have e: "raw2 = raw1" "raw3 = raw1" "full = urlsafe_b64encode (SALT @ raw1)"
    by (simp_all add: candidate_inj split: if_splits)
  from out e(3) have "out = (case len of
                      None \<Rightarrow> urlsafe_b64encode (SALT @ raw1)
                    | Some n \<Rightarrow> take n (urlsafe_b64encode (SALT @ raw1)))"
    by (simp add: apply_size_def)
  with d h len show ?thesis unfolding e by blast
qed

theorem derived_secret_encoding_witness:
  "generate_password_with_size env_steady [0x78] ''interactive'' ''medium'' world0
     = (Inr (take 64 (urlsafe_b64encode (SALT @ replicate 512 0))),
        snd (generate_reliable_password env_steady [0x78] ''interactive'' world0))
   \<and> (\<exists>raw v1 v2 v3.
         pbkdf2_hasher env_steady [0x78] SALT
             (emit (Call ''interactive'' [0x78] SALT) (print banner world0)) = (Inr raw, v1)
         \<and> pbkdf2_hasher env_steady [0x78] SALT
             (emit (Call ''interactive'' [0x78] SALT)
                (emit (Sleep 1) (emit (Return (Inr raw)) v1))) = (Inr raw, v2)
         \<and> pbkdf2_hasher env_steady [0x78] SALT
             (emit (Call ''interactive'' [0x78] SALT)
                (emit (Sleep 1) (emit (Return (Inr raw)) v2))) = (Inr raw, v3)
         \<and> take 64 (urlsafe_b64encode (SALT @ replicate 512 0))
             = take 64 (urlsafe_b64encode (SALT @ raw)))"
proof -
  have h: "generate_password_with_size env_steady [0x78] ''interactive'' ''medium'' world0
     = (Inr (take 64 (urlsafe_b64encode (SALT @ replicate 512 0))),
        snd (generate_reliable_password env_steady [0x78] ''interactive'' world0))"
    using with_size_of_reliable [OF steady_interactive SIZE_MAP_medium]
    by (simp add: apply_size_def)
  from derived_secret_encoding [OF h] have
    "\<exists>raw v1 v2 v3.
         pbkdf2_hasher env_steady [0x78] SALT
             (emit (Call ''interactive'' [0x78] SALT) (print banner world0)) = (Inr raw, v1)
         \<and> pbkdf2_hasher env_steady [0x78] SALT
             (emit (Call ''interactive'' [0x78] SALT)
                (emit (Sleep 1) (emit (Return (Inr raw)) v1))) = (Inr raw, v2)
         \<and> pbkdf2_hasher env_steady [0x78] SALT
             (emit (Call ''interactive'' [0x78] SALT)
                (emit (Sleep 1) (emit (Return (Inr raw)) v2))) = (Inr raw, v3)
         \<and> take 64 (urlsafe_b64encode (SALT @ replicate 512 0))
             = take 64 (urlsafe_b64encode (SALT @ raw))"
    by (auto simp: SIZE_MAP_medium dispatch_interactive)
  with h show ?thesis by blast
qed

text \<open>
  Claim C6. The hasher of the \<^verbatim>\<open>interactive\<close> scheme leaves the world as it is and its
  result does not depend on it: it is a function of the passphrase and the salt. For a
  passphrase that can be encoded it is \<^verbatim>\<open>pbkdf2_hmac\<close> with hash \<^verbatim>\<open>sha256\<close>, the
  iteration count 500000, which is at least 100000 and is passed on as it is, and the
  output length 512; with a \<^verbatim>\<open>pbkdf2_hmac\<close> that returns as many bytes as it is asked
  for the raw output has 512 bytes.
\<close>

theorem pbkdf2_hasher_parameters:
  "snd (pbkdf2_hasher env p salt w) = w
   \<and> fst (pbkdf2_hasher env p salt w) = fst (pbkdf2_hasher env p salt w2)
   \<and> (\<forall>pw. encode_utf8 p = Inr pw \<longrightarrow>
         (\<exists>iterations dklen. iterations = 500000 \<and> 100000 \<le> iterations \<and> dklen = 512
            \<and> fst (pbkdf2_hasher env p salt w)
                = Inr (pbkdf2_hmac env ''sha256'' pw salt iterations dklen)))
   \<and> (\<forall>e. encode_utf8 p = Inl e \<longrightarrow> fst (pbkdf2_hasher env p salt w) = Inl e)
   \<and> ((\<forall>name pw s c n. length (pbkdf2_hmac env name pw s c n) = n) \<longrightarrow>
        (\<forall>raw. fst (pbkdf2_hasher env p salt w) = Inr raw \<longrightarrow> length raw = 512))"
  by (auto simp: pbkdf2_hasher_def split: sum.splits)

theorem pbkdf2_hasher_parameters_witness:
  "encode_utf8 [0x78] = Inr [0x78]
   \<and> (\<forall>name pw s c n. length (pbkdf2_hmac env_steady name pw s c n) = n)
   \<and> fst (pbkdf2_hasher env_steady [0x78] SALT world0)
       = Inr (pbkdf2_hmac env_steady ''sha256'' [0x78] SALT 500000 512)
   \<and> fst (pbkdf2_hasher env_steady [0x78] SALT world0) = Inr (replicate 512 0)
   \<and> length (replicate 512 (0 :: 8 word)) = 512
   \<and> snd (pbkdf2_hasher env_steady [0x78] SALT world0) = world0"
proof -
  have l: "\<forall>name pw s c n. length (pbkdf2_hmac env_steady name pw s c n) = n"
    by (simp add: env_steady_def)
  have v: "pbkdf2_hmac env_steady ''sha256'' [0x78] SALT 500000 512 = replicate 512 0"
    by (simp add: env_steady_def)
  from pbkdf2_hasher_parameters [of env_steady "[0x78]" SALT world0 world0] encode_x l v
  show ?thesis by auto
qed

text \<open>
  Claim C7. Without the argon2 binding the hasher of the \<^verbatim>\<open>deep\<close> scheme raises the
  \<open>RuntimeError\<close> that names the missing package, and so does the derivation. It is a
  different exception from the \<open>ValueError\<close> of an inconsistent derivation, and the
  caller recovers from it: the \<^verbatim>\<open>try\<close> block of \<open>main\<close> completes, having written the
  error to standard output.
\<close>

theorem missing_argon2_reported:
  assumes "hash_secret_raw env = None"
  shows "argon2_hasher env p salt w = (Inl (RuntimeError argon2_missing), w)
       \<and> fst (generate_password_with_size env p ''deep'' sz w) = Inl (RuntimeError argon2_missing)
       \<and> RuntimeError argon2_missing \<noteq> ValueError inconsistent
       \<and> fst (main_derive env p ''deep'' sz w) = Inr ()
       \<and> events (snd (main_derive env p ''deep'' sz w))
           = events w @ [Stdout (banner @ [nl]), Call ''deep'' p SALT,
                         Return (Inl (RuntimeError argon2_missing)),
                         Stdout_error (RuntimeError argon2_missing)]"
proof -
  have a: "argon2_hasher env p salt w = (Inl (RuntimeError argon2_missing), w)" for salt w
    using assms by (simp add: argon2_hasher_def)
  have r: "generate_reliable_password env p ''deep'' w
     = (Inl (RuntimeError argon2_missing),
        emit (Return (Inl (RuntimeError argon2_missing)))
          (emit (Call ''deep'' p SALT) (print banner w)))"
    by (simp add: generate_reliable_password_def numeral_3_eq_3 derive_password_def
        dispatch_def a)
  then have g: "generate_password_with_size env p ''deep'' sz w
     = (Inl (RuntimeError argon2_missing),
        emit (Return (Inl (RuntimeError argon2_missing)))
          (emit (Call ''deep'' p SALT) (print banner w)))"
    by (simp add: generate_password_with_size_def)
  then have "fst (main_derive env p ''deep'' sz w) = Inr ()"
    "events (snd (main_derive env p ''deep'' sz w))
           = events w @ [Stdout (banner @ [nl]), Call ''deep'' p SALT,
                         Return (Inl (RuntimeError argon2_missing)),
                         Stdout_error (RuntimeError argon2_missing)]"
    by (simp_all add: main_derive_def emit_def print_def)
  with a g show ?thesis by simp
qed

theorem missing_argon2_reported_witness:
  "hash_secret_raw env_bare = None
   \<and> fst (generate_password_with_size env_bare [0x78] ''deep'' ''full'' world0)
       = Inl (RuntimeError argon2_missing)
   \<and> fst (main_derive env_bare [0x78] ''deep'' ''full'' world0) = Inr ()
   \<and> events (snd (main_derive env_bare [0x78] ''deep'' ''full'' world0))
       = [Stdout (banner @ [nl]), Call ''deep'' [0x78] SALT,
          Return (Inl (RuntimeError argon2_missing)),
          Stdout_error (RuntimeError argon2_missing)]"
proof -
  have h: "hash_secret_raw env_bare = None" by (simp add: env_bare_def)
  from missing_argon2_reported [OF h, of "[0x78]" SALT world0 "''full''"] h
  show ?thesis by (simp add: world0_def)
qed




text \<open>
  Claim C10. Whenever a derivation at size \<^verbatim>\<open>short\<close> succeeds, for any passphrase, either
  scheme and any environment, its output is one fixed string of 16 characters: the
  first 16 characters of the encoding of the salt alone. The 17-byte salt is put in
  front of the hasher's bytes before the encoding, and 16 characters encode the first
  12 bytes, so two passphrases yield the same \<^verbatim>\<open>short\<close> output. Under the
  \<^verbatim>\<open>interactive\<close> scheme the derivation does succeed, for every passphrase that can be
  encoded.
\<close>

theorem short_output_is_salt_only:
  "(generate_password_with_size env p scheme ''short'' w = (Inr out, w') \<longrightarrow>
      out = ''U29tZXRoaW5nX1td'' \<and> out = take 16 (urlsafe_b64encode SALT) \<and> length out = 16)
   \<and> (encode_utf8 p = Inr pw \<longrightarrow>
        fst (generate_password_with_size env p ''interactive'' ''short'' w)
          = Inr ''U29tZXRoaW5nX1td'')"
proof (intro conjI impI)
  assume a: "generate_password_with_size env p scheme ''short'' w = (Inr out, w')"
  from with_size_Inr [OF a] obtain full where
    full: "generate_reliable_password env p scheme w = (Inr full, w')" and
    out: "out = take 16 full"
    by (auto simp: SIZE_MAP_short apply_size_def)
  from reliable_success [OF full] obtain raw where "full = urlsafe_b64encode (SALT @ raw)"
    by blast
  with out show o: "out = ''U29tZXRoaW5nX1td''" by (simp only: salt_prefix)
  have "take 16 (urlsafe_b64encode SALT) = ''U29tZXRoaW5nX1td''"
    using salt_prefix [of "[]"] by simp
  with o show "out = take 16 (urlsafe_b64encode SALT)" by simp
  from o show "length out = 16" by simp
next
  assume "encode_utf8 p = Inr pw"
  from interactive_with_size [OF this SIZE_MAP_short, of env w]
  show "fst (generate_password_with_size env p ''interactive'' ''short'' w)
          = Inr ''U29tZXRoaW5nX1td''"
    by (simp add: apply_size_def salt_prefix)
qed

theorem short_output_is_salt_only_witness:
  "generate_password_with_size env_steady [0x78] ''interactive'' ''short'' world0
     = (Inr ''U29tZXRoaW5nX1td'',
        snd (generate_password_with_size env_steady [0x78] ''interactive'' ''short'' world0))
   \<and> encode_utf8 [0x78] = Inr [0x78]
   \<and> ''U29tZXRoaW5nX1td'' = take 16 (urlsafe_b64encode SALT)"
proof -
  from short_output_is_salt_only [of env_steady "[0x78]" "''interactive''" world0 _ _ "[0x78]"]
    encode_x
  have f: "fst (generate_password_with_size env_steady [0x78] ''interactive'' ''short'' world0)
             = Inr ''U29tZXRoaW5nX1td''"
    by simp
  then have h: "generate_password_with_size env_steady [0x78] ''interactive'' ''short'' world0
     = (Inr ''U29tZXRoaW5nX1td'',
        snd (generate_password_with_size env_steady [0x78] ''interactive'' ''short'' world0))"
    by (simp add: prod_eq_iff)
  from short_output_is_salt_only [of env_steady "[0x78]" "''interactive''" world0
      "''U29tZXRoaW5nX1td''"
      "snd (generate_password_with_size env_steady [0x78] ''interactive'' ''short'' world0)"
      "[0x78]"] h encode_x
  show ?thesis by blast
qed

end
